theory Spec2Isabelle
  imports Main "HOL-Library.Sublist"
begin

section \<open>Entity model of the transit network\<close>

text \<open>
  Python objects are shared and mutated in place, so every entity is a reference (a natural
  number) into a store, and the methods take the store and return the updated one. Object
  equality in the source is identity (no class defines \<open>__eq__\<close>), which is equality of
  references here.
\<close>

datatype passenger_status = WAITING | BOARDING | IN_BUS | ALIGHTING | ARRIVED

text \<open>
  A passenger's destination is a Stop object or a Station object. \<open>status_history\<close> is a
  history variable: every value assigned to \<open>status\<close> after construction, in order, so that
  the values a method writes and overwrites before it returns stay visible.
\<close>

datatype origin_ref = StopRef nat | StationRef nat

record passenger =
  status :: passenger_status
  status_history :: "passenger_status list"
  destination :: "origin_ref option"
  p_current_stop :: "nat option"
  p_current_bus :: "nat option"
  stops_visited :: "nat list"
  buses_taken :: "nat list"
  p_current_route :: "nat option"

record bus =
  capacity :: int
  passenger_list :: "nat list"
  current_stop :: "nat option"
  current_route :: "nat option"

text \<open>
  \<open>stop_list\<close> is the attribute every Stop inherits from \<open>Origin.__init__\<close>;
  \<open>bus_queue\<close> is the deque (front of the queue first), \<open>current_buses\<close> the Python set.
\<close>

record stop =
  stop_list :: "nat list"
  s_passenger_list :: "nat list"
  s_capacity :: int
  waiting_passengers :: "nat list"
  is_occupied :: bool
  bus_queue :: "nat list"
  current_buses :: "nat set"

text \<open>\<open>Stop.__init__\<close> (with \<open>Origin.__init__\<close>) when no passenger list is passed.\<close>

definition new_stop :: stop where
  "new_stop = \<lparr>stop_list = [], s_passenger_list = [], s_capacity = 50,
     waiting_passengers = [], is_occupied = False, bus_queue = [], current_buses = {}\<rparr>"

subsection \<open>Stop: admission of buses\<close>

text \<open>\<open>Stop.bus_arrival\<close>: the returned boolean is the method's return value.\<close>

definition bus_arrival :: "nat \<Rightarrow> stop \<Rightarrow> bool \<times> stop" where
  "bus_arrival b s =
     (if is_occupied s then (False, s\<lparr>bus_queue := bus_queue s @ [b]\<rparr>)
      else (True, s\<lparr>is_occupied := True, current_buses := insert b (current_buses s)\<rparr>))"

text \<open>\<open>Stop.bus_departure\<close>.\<close>

definition bus_departure :: "nat \<Rightarrow> stop \<Rightarrow> bool \<times> stop" where
  "bus_departure b s =
     (if b \<notin> current_buses s then (False, s)
      else
        let s1 = s\<lparr>current_buses := current_buses s - {b}\<rparr> in
        if current_buses s1 = {} then
          (let s2 = s1\<lparr>is_occupied := False\<rparr> in
           case bus_queue s2 of
             [] \<Rightarrow> (True, s2)
           | next_bus # rest \<Rightarrow>
               (True, s2\<lparr>bus_queue := rest,
                         current_buses := insert next_bus (current_buses s2),
                         is_occupied := True\<rparr>))
        else (True, s1))"

text \<open>\<open>StopThread._manage_bus_queue\<close>: the stop agent's queue-drain step.\<close>

definition manage_bus_queue :: "stop \<Rightarrow> stop" where
  "manage_bus_queue s =
     (if \<not> is_occupied s \<and> length (bus_queue s) > 0 then
        (case bus_queue s of
           [] \<Rightarrow> s
         | next_bus # rest \<Rightarrow> snd (bus_arrival next_bus (s\<lparr>bus_queue := rest\<rparr>)))
      else s)"

text \<open>The calls a stop receives, and the state after a sequence of them.\<close>

datatype stop_call = BusArrival nat | BusDeparture nat | QueueDrain

fun stop_step :: "stop_call \<Rightarrow> stop \<Rightarrow> stop" where
  "stop_step (BusArrival b) s = snd (bus_arrival b s)"
| "stop_step (BusDeparture b) s = snd (bus_departure b s)"
| "stop_step QueueDrain s = manage_bus_queue s"

fun stop_run :: "stop_call list \<Rightarrow> stop \<Rightarrow> stop" where
  "stop_run [] s = s"
| "stop_run (c # cs) s = stop_run cs (stop_step c s)"

fun is_departure :: "stop_call \<Rightarrow> bool" where
  "is_departure (BusDeparture b) = True"
| "is_departure c = False"

text \<open>What holds of a stop between two calls.\<close>

definition stop_inv :: "stop \<Rightarrow> bool" where
  "stop_inv s \<longleftrightarrow>
     is_occupied s = (current_buses s \<noteq> {}) \<and>
     finite (current_buses s) \<and> card (current_buses s) \<le> 1 \<and>
     (is_occupied s \<or> bus_queue s = [])"

subsection \<open>The store\<close>

text \<open>
  \<open>stations\<close> and \<open>routes\<close> give the \<open>stop_list\<close> of a Station and of a Route. A passenger
  is referred to by its \<open>id\<close> and a stop by its \<open>stop_id\<close>.
\<close>

record world =
  buses :: "nat \<Rightarrow> bus"
  stops :: "nat \<Rightarrow> stop"
  stations :: "nat \<Rightarrow> nat list"
  routes :: "nat \<Rightarrow> nat list"
  passengers :: "nat \<Rightarrow> passenger"

text \<open>Assignments to one attribute of one object.\<close>

definition set_passenger_list :: "nat \<Rightarrow> nat list \<Rightarrow> world \<Rightarrow> world" where
  "set_passenger_list b ps w = w\<lparr>buses := (buses w)(b := (buses w b)\<lparr>passenger_list := ps\<rparr>)\<rparr>"

definition set_current_stop :: "nat \<Rightarrow> nat option \<Rightarrow> world \<Rightarrow> world" where
  "set_current_stop b s w = w\<lparr>buses := (buses w)(b := (buses w b)\<lparr>current_stop := s\<rparr>)\<rparr>"

definition set_p_current_bus :: "nat \<Rightarrow> nat option \<Rightarrow> world \<Rightarrow> world" where
  "set_p_current_bus p b w =
     w\<lparr>passengers := (passengers w)(p := (passengers w p)\<lparr>p_current_bus := b\<rparr>)\<rparr>"

definition set_p_current_stop :: "nat \<Rightarrow> nat option \<Rightarrow> world \<Rightarrow> world" where
  "set_p_current_stop p s w =
     w\<lparr>passengers := (passengers w)(p := (passengers w p)\<lparr>p_current_stop := s\<rparr>)\<rparr>"

definition set_stop :: "nat \<Rightarrow> stop \<Rightarrow> world \<Rightarrow> world" where
  "set_stop s v w = w\<lparr>stops := (stops w)(s := v)\<rparr>"

subsection \<open>Bus: passengers aboard\<close>

text \<open>\<open>Bus.can_accept_passengers(count)\<close>, \<open>Bus.is_full\<close>.\<close>

definition can_accept_passengers :: "bus \<Rightarrow> int \<Rightarrow> bool" where
  "can_accept_passengers b n \<longleftrightarrow> int (length (passenger_list b)) + n \<le> capacity b"

definition is_full :: "bus \<Rightarrow> bool" where
  "is_full b \<longleftrightarrow> int (length (passenger_list b)) \<ge> capacity b"

text \<open>\<open>Bus.add_passenger\<close> and \<open>Bus.remove_passenger\<close> (\<open>list.remove\<close> drops the first occurrence).\<close>

definition add_passenger :: "nat \<Rightarrow> nat \<Rightarrow> world \<Rightarrow> bool \<times> world" where
  "add_passenger b p w =
     (if can_accept_passengers (buses w b) 1 then
        (True, set_p_current_bus p (Some b)
                 (set_passenger_list b (passenger_list (buses w b) @ [p]) w))
      else (False, w))"

definition remove_passenger :: "nat \<Rightarrow> nat \<Rightarrow> world \<Rightarrow> bool \<times> world" where
  "remove_passenger b p w =
     (if p \<in> set (passenger_list (buses w b)) then
        (True, set_p_current_bus p None
                 (set_passenger_list b (remove1 p (passenger_list (buses w b))) w))
      else (False, w))"

subsection \<open>Stop: passengers present\<close>

text \<open>\<open>Stop.can_accept_passengers\<close>, \<open>Stop.add_passenger\<close>, \<open>Stop.remove_passenger\<close>.\<close>

definition stop_can_accept_passengers :: "stop \<Rightarrow> int \<Rightarrow> bool" where
  "stop_can_accept_passengers s n \<longleftrightarrow> int (length (s_passenger_list s)) + n \<le> s_capacity s"

definition stop_add_passenger :: "nat \<Rightarrow> nat \<Rightarrow> world \<Rightarrow> bool \<times> world" where
  "stop_add_passenger s p w =
     (if stop_can_accept_passengers (stops w s) 1 then
        (True, set_p_current_stop p (Some s)
                 (set_stop s ((stops w s)\<lparr>s_passenger_list := s_passenger_list (stops w s) @ [p],
                                           waiting_passengers := waiting_passengers (stops w s) @ [p]\<rparr>) w))
      else (False, w))"

definition stop_remove_passenger :: "nat \<Rightarrow> nat \<Rightarrow> world \<Rightarrow> bool \<times> world" where
  "stop_remove_passenger s p w =
     (if p \<in> set (s_passenger_list (stops w s)) then
        (True, set_stop s ((stops w s)\<lparr>s_passenger_list := remove1 p (s_passenger_list (stops w s)),
                                        waiting_passengers :=
                                          (if p \<in> set (waiting_passengers (stops w s))
                                           then remove1 p (waiting_passengers (stops w s))
                                           else waiting_passengers (stops w s))\<rparr>) w)
      else (False, w))"

text \<open>The admission methods of stop \<open>s\<close>, applied in the store.\<close>

definition stop_bus_arrival :: "nat \<Rightarrow> nat \<Rightarrow> world \<Rightarrow> world" where
  "stop_bus_arrival s b w = set_stop s (snd (bus_arrival b (stops w s))) w"

definition stop_bus_departure :: "nat \<Rightarrow> nat \<Rightarrow> world \<Rightarrow> world" where
  "stop_bus_departure s b w = set_stop s (snd (bus_departure b (stops w s))) w"

subsection \<open>Passenger: boarding and alighting\<close>

datatype error = ValueError | AttributeError

text \<open>An assignment \<open>self.status = v\<close>.\<close>

definition set_status :: "passenger_status \<Rightarrow> passenger \<Rightarrow> passenger" where
  "set_status v x = x\<lparr>status := v, status_history := status_history x @ [v]\<rparr>"

text \<open>
  The classes of the objects. \<open>passenger.py\<close> imports \<open>Stop\<close> and \<open>Station\<close> from the
  modules \<open>models.stop\<close> and \<open>models.station\<close>; the seed, which builds every stop, station
  and passenger, takes the classes from \<open>src.models.stop\<close> and \<open>src.models.station\<close>.
  \<open>main.py\<close> puts both the repository and its \<open>src\<close> directory on the module path, so
  each file is loaded once under each name, and the two \<open>Stop\<close> classes (and the two
  \<open>Station\<close> classes) are different classes, neither a subclass of the other. The objects
  of the store are instances of the \<open>src.models\<close> classes.
\<close>

datatype py_class = Src_Stop | Src_Station | Models_Stop | Models_Station

fun class_of :: "origin_ref \<Rightarrow> py_class" where
  "class_of (StopRef s) = Src_Stop"
| "class_of (StationRef t) = Src_Station"

definition isinstance :: "origin_ref \<Rightarrow> py_class \<Rightarrow> bool" where
  "isinstance d c \<longleftrightarrow> class_of d = c"

text \<open>
  \<open>Passenger.is_at_destination\<close>, on the passenger's fields as they are at the call; its
  \<open>isinstance\<close> tests are against the classes \<open>passenger.py\<close> imported.
\<close>

definition is_at_destination :: "world \<Rightarrow> passenger \<Rightarrow> bool" where
  "is_at_destination w x =
     (case p_current_stop x of
        None \<Rightarrow> False
      | Some cs \<Rightarrow>
          (case destination x of
             None \<Rightarrow> False
           | Some d \<Rightarrow>
               if isinstance d Models_Stop then d = StopRef cs
               else if isinstance d Models_Station then
                 (case d of
                    StopRef s \<Rightarrow> cs \<in> set (stop_list (stops w s))
                  | StationRef t \<Rightarrow> cs \<in> set (stations w t))
               else False))"

text \<open>\<open>Passenger.board_bus\<close>, one binding per statement of the method.\<close>

definition board_bus :: "nat \<Rightarrow> nat \<Rightarrow> world \<Rightarrow> bool \<times> world" where
  "board_bus p b w =
     (if status (passengers w p) \<noteq> WAITING then (False, w)
      else if \<not> can_accept_passengers (buses w b) 1 then (False, w)
      else
        let x1 = set_status BOARDING (passengers w p);
            x2 = x1\<lparr>p_current_bus := Some b\<rparr>;
            x3 = (case p_current_stop x2 of
                    None \<Rightarrow> x2
                  | Some s \<Rightarrow> x2\<lparr>stops_visited := stops_visited x2 @ [s]\<rparr>);
            x4 = x3\<lparr>buses_taken := buses_taken x3 @ [b]\<rparr>;
            x5 = set_status IN_BUS x4;
            x6 = x5\<lparr>p_current_route := current_route (buses w b)\<rparr>
        in (True, w\<lparr>passengers := (passengers w)(p := x6)\<rparr>))"

text \<open>
  \<open>Passenger.alight_bus\<close>. When the passenger is not at its destination the method prints
  \<open>previous_bus.id\<close>, which raises AttributeError if \<open>current_bus\<close> was None; the
  assignments made before stay.
\<close>

definition alight_bus :: "nat \<Rightarrow> nat \<Rightarrow> world \<Rightarrow> (error + bool) \<times> world" where
  "alight_bus p s w =
     (if status (passengers w p) \<noteq> IN_BUS then (Inr False, w)
      else
        let x1 = set_status ALIGHTING (passengers w p);
            previous_bus = p_current_bus x1;
            x2 = x1\<lparr>p_current_bus := None\<rparr>;
            x3 = x2\<lparr>p_current_stop := Some s\<rparr>;
            x4 = x3\<lparr>stops_visited := stops_visited x3 @ [s]\<rparr>;
            x5 = set_status WAITING x4
        in if is_at_destination w x5
           then (Inr True, w\<lparr>passengers := (passengers w)(p := set_status ARRIVED x5)\<rparr>)
           else (if previous_bus = None then Inl AttributeError else Inr True,
                 w\<lparr>passengers := (passengers w)(p := x5)\<rparr>))"

subsection \<open>Bus agent\<close>

text \<open>\<open>list.index\<close>: the position of the first occurrence (the caller checks membership).\<close>

definition index_of :: "'a list \<Rightarrow> 'a \<Rightarrow> nat" where
  "index_of xs a = length (takeWhile (\<lambda>x. x \<noteq> a) xs)"

text \<open>
  \<open>destination.stop_list\<close> where \<open>hasattr(destination, 'stop_list')\<close> holds: a Station has
  the attribute, and so has a Stop, which inherits it from Origin.
\<close>

definition dest_stop_list :: "world \<Rightarrow> origin_ref option \<Rightarrow> nat list option" where
  "dest_stop_list w d =
     (case d of
        None \<Rightarrow> None
      | Some (StopRef s) \<Rightarrow> Some (stop_list (stops w s))
      | Some (StationRef t) \<Rightarrow> Some (stations w t))"

text \<open>\<open>destination == stop\<close> for a destination and a possibly missing stop.\<close>

definition dest_is_stop :: "origin_ref option \<Rightarrow> nat option \<Rightarrow> bool" where
  "dest_is_stop d cs =
     (case (d, cs) of
        (None, None) \<Rightarrow> True
      | (Some (StopRef x), Some y) \<Rightarrow> x = y
      | _ \<Rightarrow> False)"

text \<open>\<open>BusThread._should_passenger_alight\<close>.\<close>

definition should_passenger_alight :: "nat \<Rightarrow> nat \<Rightarrow> world \<Rightarrow> bool" where
  "should_passenger_alight b p w =
     (let cs = current_stop (buses w b); d = destination (passengers w p) in
      if dest_is_stop d cs then True
      else (case dest_stop_list w d of
              Some sl \<Rightarrow> (case cs of None \<Rightarrow> False | Some y \<Rightarrow> y \<in> set sl)
            | None \<Rightarrow> False))"

text \<open>\<open>BusThread._handle_alighting\<close>.\<close>

definition handle_alighting :: "nat \<Rightarrow> world \<Rightarrow> world" where
  "handle_alighting b w =
     fold (\<lambda>p v. snd (remove_passenger b p v))
       (filter (\<lambda>p. should_passenger_alight b p w) (passenger_list (buses w b))) w"

text \<open>
  \<open>BusThread._can_accept_passenger\<close>; \<open>route_stops.index(current_stop)\<close> raises ValueError
  when the current stop is not on the route.
\<close>

definition can_accept_passenger :: "nat \<Rightarrow> nat \<Rightarrow> world \<Rightarrow> error + bool" where
  "can_accept_passenger b p w =
     (case current_route (buses w b) of
        None \<Rightarrow> Inr False
      | Some r \<Rightarrow>
          (case current_stop (buses w b) of
             None \<Rightarrow> Inl ValueError
           | Some cs \<Rightarrow>
               if cs \<notin> set (routes w r) then Inl ValueError
               else
                 let current_index = index_of (routes w r) cs in
                 (case dest_stop_list w (destination (passengers w p)) of
                    Some sl \<Rightarrow> Inr (list_ex (\<lambda>s. s \<in> set (drop current_index (routes w r))) sl)
                  | None \<Rightarrow> Inr False)))"

text \<open>
  The loop of \<open>BusThread._handle_boarding\<close> over the copy of the waiting list; \<open>sid\<close> is the
  bus's current stop. An exception leaves the loop with the store as it is then.
\<close>

fun boarding_loop :: "nat \<Rightarrow> nat \<Rightarrow> nat list \<Rightarrow> world \<Rightarrow> error option \<times> world" where
  "boarding_loop b sid [] w = (None, w)"
| "boarding_loop b sid (p # ps) w =
     (if can_accept_passengers (buses w b) 1 then
        (case can_accept_passenger b p w of
           Inl e \<Rightarrow> (Some e, w)
         | Inr ok \<Rightarrow>
             if ok then
               (case add_passenger b p w of
                  (True, w1) \<Rightarrow> boarding_loop b sid ps (snd (stop_remove_passenger sid p w1))
                | (False, w1) \<Rightarrow> boarding_loop b sid ps w1)
             else boarding_loop b sid ps w)
      else boarding_loop b sid ps w)"

definition handle_boarding :: "nat \<Rightarrow> world \<Rightarrow> error option \<times> world" where
  "handle_boarding b w =
     (if is_full (buses w b) then (None, w)
      else (case current_stop (buses w b) of
              None \<Rightarrow> (Some AttributeError, w)
            | Some sid \<Rightarrow> boarding_loop b sid (waiting_passengers (stops w sid)) w))"

text \<open>\<open>BusThread._handle_passenger_exchange\<close>.\<close>

definition handle_passenger_exchange :: "nat \<Rightarrow> world \<Rightarrow> error option \<times> world" where
  "handle_passenger_exchange b w =
     (case current_stop (buses w b) of
        None \<Rightarrow> (None, w)
      | Some cs \<Rightarrow> handle_boarding b (handle_alighting b w))"

text \<open>
  \<open>BusThread._move_to_next_stop\<close>. \<open>move_target\<close> is the stop chosen as \<open>next_stop\<close> when
  the current stop is on the route.
\<close>

definition move_target :: "nat list \<Rightarrow> nat \<Rightarrow> nat" where
  "move_target route_stops cs =
     (let current_index = index_of route_stops cs in
      if int current_index < int (length route_stops) - 1
      then route_stops ! (current_index + 1)
      else route_stops ! 0)"

definition move_to_next_stop :: "nat \<Rightarrow> world \<Rightarrow> bool \<times> world" where
  "move_to_next_stop b w =
     (case current_route (buses w b) of
        None \<Rightarrow> (False, w)
      | Some r \<Rightarrow>
          (case current_stop (buses w b) of
             None \<Rightarrow> (False, w)
           | Some cs \<Rightarrow>
               if routes w r = [] then (False, w)
               else if cs \<notin> set (routes w r)
               then (True, set_current_stop b (Some (routes w r ! 0)) w)
               else
                 let next_stop = move_target (routes w r) cs;
                     w1 = stop_bus_departure cs b w;
                     w2 = set_current_stop b (Some next_stop) w1;
                     w3 = stop_bus_arrival next_stop b w2
                 in (True, w3)))"

text \<open>
  One iteration of \<open>BusThread.run\<close> (the pauses left out): an exception in the passenger
  exchange is caught by the loop and the move is skipped.
\<close>

definition bus_cycle :: "nat \<Rightarrow> world \<Rightarrow> world" where
  "bus_cycle b w =
     (if current_route (buses w b) = None \<or> current_stop (buses w b) = None then w
      else (case handle_passenger_exchange b w of
              (Some e, w1) \<Rightarrow> w1
            | (None, w1) \<Rightarrow> snd (move_to_next_stop b w1)))"

subsection \<open>Passenger agent\<close>

text \<open>
  Iterating over a Python set visits every element once, in an order the program does not
  control; functions that iterate over a set take the enumeration as a parameter.
\<close>

definition set_enumeration :: "('a set \<Rightarrow> 'a list) \<Rightarrow> bool" where
  "set_enumeration it \<longleftrightarrow> (\<forall>S. finite S \<longrightarrow> set (it S) = S \<and> distinct (it S))"

text \<open>
  \<open>PassengerThread._can_board_bus\<close>. With no destination the source checks the list
  \<open>[None]\<close>, whose element is on no route; the list is empty here.
\<close>

definition can_board_bus :: "nat \<Rightarrow> nat \<Rightarrow> world \<Rightarrow> bool" where
  "can_board_bus p b w =
     (case current_route (buses w b) of
        None \<Rightarrow> False
      | Some r \<Rightarrow>
          let stops_to_check =
                (case dest_stop_list w (destination (passengers w p)) of
                   Some sl \<Rightarrow> sl
                 | None \<Rightarrow> []);
              route_stops = routes w r;
              current_stop_index =
                (case current_stop (buses w b) of
                   None \<Rightarrow> - 1
                 | Some cs \<Rightarrow> if cs \<in> set route_stops then int (index_of route_stops cs) else - 1)
          in list_ex (\<lambda>s. s \<in> set route_stops \<and> current_stop_index < int (index_of route_stops s))
               stops_to_check)"

text \<open>\<open>PassengerThread._try_board_bus\<close>: the loop over the buses at the stop, then the method.\<close>

fun try_buses :: "nat \<Rightarrow> nat list \<Rightarrow> world \<Rightarrow> world" where
  "try_buses p [] w = w"
| "try_buses p (b # bs) w =
     (if can_board_bus p b w then
        (case board_bus p b w of
           (True, w1) \<Rightarrow> w1
         | (False, w1) \<Rightarrow> try_buses p bs w1)
      else try_buses p bs w)"

definition try_board_bus :: "(nat set \<Rightarrow> nat list) \<Rightarrow> nat \<Rightarrow> world \<Rightarrow> world" where
  "try_board_bus it p w =
     (case p_current_stop (passengers w p) of
        None \<Rightarrow> w
      | Some s \<Rightarrow> try_buses p (it (current_buses (stops w s))) w)"

text \<open>\<open>PassengerThread._should_alight_at_stop\<close> and \<open>PassengerThread._check_arrival\<close>.\<close>

definition should_alight_at_stop :: "nat \<Rightarrow> nat \<Rightarrow> world \<Rightarrow> bool" where
  "should_alight_at_stop p s w =
     (let d = destination (passengers w p) in
      if dest_is_stop d (Some s) then True
      else (case dest_stop_list w d of Some sl \<Rightarrow> s \<in> set sl | None \<Rightarrow> False))"

definition check_arrival :: "nat \<Rightarrow> world \<Rightarrow> world" where
  "check_arrival p w =
     (case p_current_bus (passengers w p) of
        None \<Rightarrow> w
      | Some b \<Rightarrow>
          (case current_stop (buses w b) of
             None \<Rightarrow> w
           | Some cs \<Rightarrow> if should_alight_at_stop p cs w then snd (alight_bus p cs w) else w))"

text \<open>One iteration of \<open>PassengerThread.run\<close> (exceptions are caught and logged by the loop).\<close>

definition passenger_cycle :: "(nat set \<Rightarrow> nat list) \<Rightarrow> nat \<Rightarrow> world \<Rightarrow> world" where
  "passenger_cycle it p w =
     (case status (passengers w p) of
        WAITING \<Rightarrow> try_board_bus it p w
      | IN_BUS \<Rightarrow> check_arrival p w
      | _ \<Rightarrow> w)"

subsection \<open>Stop adapter: confirmation of an alighting\<close>

text \<open>The entries of \<open>message.data\<close> the handler reads (\<open>None\<close>: key absent).\<close>

record confirmation =
  d_stop_id :: "nat option"
  d_status :: "string option"
  d_passenger_id :: "nat option"

text \<open>
  \<open>MessageStopAdapter._handle_passenger_alighting_confirmation\<close> for the adapter of stop
  \<open>sid\<close>. \<open>seed_passengers\<close> is the dictionary \<open>seed.passengers\<close> in which the handler looks
  the passenger up. Publishing the stop status afterwards does not change the store.
\<close>

definition handle_passenger_alighting_confirmation ::
    "(nat \<rightharpoonup> nat) \<Rightarrow> nat \<Rightarrow> confirmation \<Rightarrow> world \<Rightarrow> world" where
  "handle_passenger_alighting_confirmation seed_passengers sid d w =
     (if d_stop_id d \<noteq> Some sid \<or> d_status d \<noteq> Some ''confirmed'' then w
      else (case d_passenger_id d of
              None \<Rightarrow> w
            | Some pid \<Rightarrow>
                if pid = 0 then w
                else (case seed_passengers pid of
                        None \<Rightarrow> w
                      | Some p \<Rightarrow>
                          if pid \<in> set (s_passenger_list (stops w sid)) then w
                          else
                            let v = (if destination (passengers w p) = Some (StopRef sid)
                                     then ARRIVED else WAITING);
                                w1 = w\<lparr>passengers :=
                                        (passengers w)(p := set_status v (passengers w p))\<rparr>;
                                w2 = set_p_current_stop p (Some sid) w1;
                                w3 = snd (stop_add_passenger sid p w2)
                            in if destination (passengers w3 p) \<noteq> Some (StopRef sid)
                                  \<and> p \<notin> set (waiting_passengers (stops w3 sid))
                               then set_stop sid ((stops w3 sid)\<lparr>waiting_passengers :=
                                      waiting_passengers (stops w3 sid) @ [p]\<rparr>) w3
                               else w3)))"

text \<open>
  The handler builds its own \<open>STSSeed()\<close>; \<open>STSSeed.__init__\<close> sets \<open>self.passengers = {}\<close>
  and the handler does not call \<open>initialize_system\<close>.
\<close>

definition STSSeed_passengers :: "nat \<rightharpoonup> nat" where
  "STSSeed_passengers = Map.empty"

subsection \<open>Sequences of calls on the store\<close>

datatype call =
    BoardBus nat nat
  | AlightBus nat nat
  | BusAddPassenger nat nat
  | BusRemovePassenger nat nat
  | StopAddPassenger nat nat
  | StopRemovePassenger nat nat
  | AlightingConfirmation nat confirmation
  | BusCycle nat

text \<open>\<open>BoardBus p b\<close> is \<open>p.board_bus(b)\<close>, \<open>BusAddPassenger b p\<close> is \<open>b.add_passenger(p)\<close>, and so on.\<close>

fun step :: "call \<Rightarrow> world \<Rightarrow> world" where
  "step (BoardBus p b) w = snd (board_bus p b w)"
| "step (AlightBus p s) w = snd (alight_bus p s w)"
| "step (BusAddPassenger b p) w = snd (add_passenger b p w)"
| "step (BusRemovePassenger b p) w = snd (remove_passenger b p w)"
| "step (StopAddPassenger s p) w = snd (stop_add_passenger s p w)"
| "step (StopRemovePassenger s p) w = snd (stop_remove_passenger s p w)"
| "step (AlightingConfirmation s d) w =
     handle_passenger_alighting_confirmation STSSeed_passengers s d w"
| "step (BusCycle b) w = bus_cycle b w"

fun run :: "call list \<Rightarrow> world \<Rightarrow> world" where
  "run [] w = w"
| "run (c # cs) w = run cs (step c w)"

fun boarding_or_alighting :: "call \<Rightarrow> bool" where
  "boarding_or_alighting (BoardBus p b) = True"
| "boarding_or_alighting (BusAddPassenger b p) = True"
| "boarding_or_alighting (StopRemovePassenger s p) = True"
| "boarding_or_alighting (AlightBus p s) = True"
| "boarding_or_alighting c = False"

fun bus_passenger_call :: "call \<Rightarrow> bool" where
  "bus_passenger_call (BusAddPassenger b p) = True"
| "bus_passenger_call (BusRemovePassenger b p) = True"
| "bus_passenger_call c = False"

text \<open>The status chain of the specification, one step at a time.\<close>

fun chain :: "passenger_status \<Rightarrow> passenger_status \<Rightarrow> bool" where
  "chain WAITING BOARDING = True"
| "chain BOARDING IN_BUS = True"
| "chain IN_BUS ALIGHTING = True"
| "chain ALIGHTING WAITING = True"
| "chain ALIGHTING ARRIVED = True"
| "chain a b = False"

text \<open>\<open>follows r a vs\<close>: starting from \<open>a\<close>, the successive values \<open>vs\<close> are steps of \<open>r\<close>.\<close>

fun follows :: "('a \<Rightarrow> 'a \<Rightarrow> bool) \<Rightarrow> 'a \<Rightarrow> 'a list \<Rightarrow> bool" where
  "follows r a [] = True"
| "follows r a (v # vs) = (r a v \<and> follows r v vs)"

section \<open>Message broker\<close>

datatype message_type =
    BUS_ARRIVAL | BUS_DEPARTURE | PASSENGER_BOARDING | PASSENGER_ALIGHTING | ROUTE_UPDATE
  | SCHEDULE_UPDATE | SYSTEM_ALERT | STOP_STATUS | STATION_STATUS | CAPACITY_UPDATE

text \<open>A message; \<open>data\<close> stands for the payload and the timestamp, which the broker does not read.\<close>

record 'd message =
  msg_type :: message_type
  sender_id :: string
  data :: 'd

subsection \<open>Python sets of subscribers\<close>

text \<open>
  A Python set is a table of slots, each empty or holding one element, and it is iterated
  slot by slot. In which slot a new element is put depends on its hash and on what the
  table holds, and the table may be rebuilt when it grows: \<open>place\<close> stands for that rule
  (the hashes of the subscribers are part of it). Removing an element empties its slot and
  leaves the others where they are. A new set has eight empty slots.
\<close>

type_synonym 's py_set = "'s option list"

definition new_set :: "'s py_set" where
  "new_set = replicate 8 None"

definition elements :: "'s py_set \<Rightarrow> 's list" where
  "elements t = map the (filter (\<lambda>e. e \<noteq> None) t)"

definition set_add :: "('s \<Rightarrow> 's py_set \<Rightarrow> 's py_set) \<Rightarrow> 's \<Rightarrow> 's py_set \<Rightarrow> 's py_set" where
  "set_add place x t = (if Some x \<in> set t then t else place x t)"

definition set_remove :: "'s \<Rightarrow> 's py_set \<Rightarrow> 's py_set" where
  "set_remove x t = map (\<lambda>e. if e = Some x then None else e) t"

text \<open>What every rule of placement does: the new element is added, nothing is lost or doubled.\<close>

definition placement :: "('s \<Rightarrow> 's py_set \<Rightarrow> 's py_set) \<Rightarrow> bool" where
  "placement place \<longleftrightarrow>
     (\<forall>x t. Some x \<notin> set t \<and> distinct (elements t) \<longrightarrow>
        distinct (elements (place x t)) \<and> set (elements (place x t)) = insert x (set (elements t)))"

text \<open>
  The set iterator: \<open>next_entry pos t\<close> is the first filled slot of \<open>t\<close> at or after slot
  \<open>pos\<close>, with its element, if there is one.
\<close>

fun first_entry :: "'s py_set \<Rightarrow> (nat \<times> 's) option" where
  "first_entry [] = None"
| "first_entry (Some x # t) = Some (0, x)"
| "first_entry (None # t) = map_option (\<lambda>(j, x). (Suc j, x)) (first_entry t)"

definition next_entry :: "nat \<Rightarrow> 's py_set \<Rightarrow> (nat \<times> 's) option" where
  "next_entry pos t = map_option (\<lambda>(j, x). (pos + j, x)) (first_entry (drop pos t))"

text \<open>
  An example of a rule of placement, for subscribers with hash \<open>hash\<close>: CPython puts an
  element of a small set in slot \<open>hash mod 8\<close> of its eight slots when that slot is empty, as
  here. What CPython does when the slot is taken is not followed: the example then adds a
  slot at the end.
\<close>

definition hash_slot_place :: "('s \<Rightarrow> nat) \<Rightarrow> 's \<Rightarrow> 's py_set \<Rightarrow> 's py_set" where
  "hash_slot_place hash x t =
     (let i = hash x mod 8
      in if i < length t \<and> t ! i = None then t[i := Some x] else t @ [Some x])"

subsection \<open>The broker and its consumer thread\<close>

text \<open>
  The broker: \<open>_subscribers\<close> (a dictionary from every message type to a set of subscribers),
  \<open>_message_queue\<close> (front first) and \<open>_stop_event\<close>.
\<close>

record ('s, 'd) broker =
  subscribers :: "message_type \<Rightarrow> 's py_set"
  message_queue :: "'d message list"
  stop_event :: bool

text \<open>\<open>MessageBroker.__init__\<close>.\<close>

definition new_broker :: "('s, 'd) broker" where
  "new_broker = \<lparr>subscribers = (\<lambda>t. new_set), message_queue = [], stop_event = False\<rparr>"

definition all_message_types :: "message_type list" where
  "all_message_types =
     [BUS_ARRIVAL, BUS_DEPARTURE, PASSENGER_BOARDING, PASSENGER_ALIGHTING, ROUTE_UPDATE,
      SCHEDULE_UPDATE, SYSTEM_ALERT, STOP_STATUS, STATION_STATUS, CAPACITY_UPDATE]"

text \<open>\<open>MessageBroker.subscribe\<close>, \<open>unsubscribe\<close> (\<open>None\<close>: all types) and \<open>publish\<close>.\<close>

definition subscribe ::
    "('s \<Rightarrow> 's py_set \<Rightarrow> 's py_set) \<Rightarrow> 's \<Rightarrow> message_type list \<Rightarrow> ('s, 'd) broker \<Rightarrow>
     ('s, 'd) broker" where
  "subscribe place sub ts b =
     b\<lparr>subscribers := fold (\<lambda>t m. m(t := set_add place sub (m t))) ts (subscribers b)\<rparr>"

definition unsubscribe ::
    "'s \<Rightarrow> message_type list option \<Rightarrow> ('s, 'd) broker \<Rightarrow> ('s, 'd) broker" where
  "unsubscribe sub ts b =
     b\<lparr>subscribers :=
         fold (\<lambda>t m. if Some sub \<in> set (m t) then m(t := set_remove sub (m t)) else m)
           (case ts of None \<Rightarrow> all_message_types | Some l \<Rightarrow> l) (subscribers b)\<rparr>"

definition publish :: "'d message \<Rightarrow> ('s, 'd) broker \<Rightarrow> ('s, 'd) broker" where
  "publish m b = b\<lparr>message_queue := message_queue b @ [m]\<rparr>"

text \<open>\<open>MessageBroker.shutdown\<close>: the queued messages are dropped.\<close>

definition shutdown :: "('s, 'd) broker \<Rightarrow> ('s, 'd) broker" where
  "shutdown b = b\<lparr>stop_event := True, message_queue := []\<rparr>"

text \<open>
  The thread of \<open>MessageBroker._process_messages\<close> is either at the head of its
  \<open>while\<close> loop (\<open>Idle\<close>) or inside the \<open>for\<close> loop over the subscribers of the message \<open>m\<close>
  it took from the queue (\<open>Delivering m pos used\<close>): \<open>pos\<close> is the slot at which the set
  iterator looks next, \<open>used\<close> the number of elements the set had when the iterator was
  made.
\<close>

datatype 'd consumer = Idle | Delivering "'d message" nat nat

text \<open>
  A run of the broker: the calls made on it by any thread or handler, and the steps of its
  consumer thread, in the order in which they take effect. \<open>ConsumerGet\<close> is one pass
  through the head of the \<open>while\<close> loop: with the stop event set the loop has ended, with
  an empty queue \<open>get\<close> times out, otherwise a message is taken and the iteration over its
  subscribers begins. \<open>ConsumerNext\<close> is one step of the \<open>for\<close> loop: the iterator raises
  RuntimeError if the size of the set has changed (the \<open>while\<close> loop catches and logs it),
  ends the loop if no filled slot is left, and otherwise yields a subscriber, whose
  \<open>on_message\<close> is called (an exception it raises is caught; what the handler publishes
  or subscribes are calls of the run). Beside the broker and the consumer, the run records
  the messages in the order of their \<open>publish\<close> calls, the messages the consumer took from
  the queue, and the calls to \<open>on_message\<close>.
\<close>

datatype ('s, 'd) broker_call =
    Subscribe 's "message_type list"
  | Unsubscribe 's "message_type list option"
  | Publish "'d message"
  | ConsumerGet
  | ConsumerNext
  | Shutdown

record ('s, 'd) run_state =
  the_broker :: "('s, 'd) broker"
  consumer :: "'d consumer"
  published :: "'d message list"
  dequeued :: "'d message list"
  delivered :: "('s \<times> 'd message) list"

definition new_run :: "('s, 'd) run_state" where
  "new_run = \<lparr>the_broker = new_broker, consumer = Idle, published = [], dequeued = [],
     delivered = []\<rparr>"

definition consumer_get :: "('s, 'd) run_state \<Rightarrow> ('s, 'd) run_state" where
  "consumer_get r =
     (case consumer r of
        Delivering m pos used \<Rightarrow> r
      | Idle \<Rightarrow>
          if stop_event (the_broker r) then r
          else (case message_queue (the_broker r) of
                  [] \<Rightarrow> r
                | m # rest \<Rightarrow>
                    r\<lparr>the_broker := (the_broker r)\<lparr>message_queue := rest\<rparr>,
                      dequeued := dequeued r @ [m],
                      consumer := Delivering m 0
                        (length (elements (subscribers (the_broker r) (msg_type m))))\<rparr>))"

definition consumer_next :: "('s, 'd) run_state \<Rightarrow> ('s, 'd) run_state" where
  "consumer_next r =
     (case consumer r of
        Idle \<Rightarrow> r
      | Delivering m pos used \<Rightarrow>
          if length (elements (subscribers (the_broker r) (msg_type m))) \<noteq> used
          then r\<lparr>consumer := Idle\<rparr>
          else (case next_entry pos (subscribers (the_broker r) (msg_type m)) of
                  None \<Rightarrow> r\<lparr>consumer := Idle\<rparr>
                | Some (j, sub) \<Rightarrow>
                    r\<lparr>delivered := delivered r @ [(sub, m)],
                      consumer := Delivering m (Suc j) used\<rparr>))"

fun broker_step ::
    "('s \<Rightarrow> 's py_set \<Rightarrow> 's py_set) \<Rightarrow> ('s, 'd) broker_call \<Rightarrow>
     ('s, 'd) run_state \<Rightarrow> ('s, 'd) run_state" where
  "broker_step place (Subscribe sub ts) r =
     r\<lparr>the_broker := subscribe place sub ts (the_broker r)\<rparr>"
| "broker_step place (Unsubscribe sub ts) r = r\<lparr>the_broker := unsubscribe sub ts (the_broker r)\<rparr>"
| "broker_step place (Publish m) r =
     r\<lparr>the_broker := publish m (the_broker r), published := published r @ [m]\<rparr>"
| "broker_step place ConsumerGet r = consumer_get r"
| "broker_step place ConsumerNext r = consumer_next r"
| "broker_step place Shutdown r = r\<lparr>the_broker := shutdown (the_broker r)\<rparr>"

fun broker_run ::
    "('s \<Rightarrow> 's py_set \<Rightarrow> 's py_set) \<Rightarrow> ('s, 'd) broker_call list \<Rightarrow>
     ('s, 'd) run_state \<Rightarrow> ('s, 'd) run_state" where
  "broker_run place [] r = r"
| "broker_run place (c # cs) r = broker_run place cs (broker_step place c r)"

fun is_publish :: "('s, 'd) broker_call \<Rightarrow> bool" where
  "is_publish (Publish m) = True"
| "is_publish c = False"

text \<open>What subscriber \<open>sub\<close> has been handed, in order.\<close>

definition observed :: "'s \<Rightarrow> ('s, 'd) run_state \<Rightarrow> 'd message list" where
  "observed sub r = map snd (filter (\<lambda>d. fst d = sub) (delivered r))"

text \<open>\<open>precedes a b xs\<close>: \<open>b\<close> occurs in \<open>xs\<close> after the first occurrence of \<open>a\<close>.\<close>

fun precedes :: "'a \<Rightarrow> 'a \<Rightarrow> 'a list \<Rightarrow> bool" where
  "precedes a b [] = False"
| "precedes a b (x # xs) = (if x = a then b \<in> set xs else precedes a b xs)"

text \<open>
  While the consumer delivers \<open>m\<close>, it is the last message taken, and what \<open>sub\<close> has been
  handed either lies within the messages taken before or already ends with \<open>m\<close>.
\<close>

definition observed_inv :: "'s \<Rightarrow> ('s, 'd) run_state \<Rightarrow> bool" where
  "observed_inv sub r \<longleftrightarrow>
     subseq (remdups_adj (observed sub r)) (dequeued r) \<and>
     (case consumer r of
        Idle \<Rightarrow> True
      | Delivering m pos used \<Rightarrow>
          dequeued r \<noteq> [] \<and> last (dequeued r) = m \<and>
          (subseq (remdups_adj (observed sub r)) (butlast (dequeued r)) \<or>
           (observed sub r \<noteq> [] \<and> last (observed sub r) = m)))"

text \<open>A bus-arrival message, for the examples.\<close>

definition arrival_message :: "unit message" where
  "arrival_message = \<lparr>msg_type = BUS_ARRIVAL, sender_id = ''Bus-1'', data = ()\<rparr>"

text \<open>
  Two example runs with subscribers 1 and 2, whose hashes are 1 and 2: in the first,
  subscriber 2 and then subscriber 1 subscribe to bus arrivals and a message is published;
  in the second, subscriber 1 subscribes while the consumer is delivering the message to the
  subscribers.
\<close>

definition by_hash :: "nat \<Rightarrow> nat py_set \<Rightarrow> nat py_set" where
  "by_hash = hash_slot_place (\<lambda>sub. sub)"

definition example_run :: "(nat, unit) run_state" where
  "example_run =
     broker_run by_hash
       [Subscribe 2 [BUS_ARRIVAL], Subscribe 1 [BUS_ARRIVAL], Publish arrival_message] new_run"

definition example_changed_run :: "(nat, unit) run_state" where
  "example_changed_run =
     broker_run by_hash
       [Subscribe 2 [BUS_ARRIVAL], Publish arrival_message, ConsumerGet,
        Subscribe 1 [BUS_ARRIVAL]] new_run"

text \<open>
  A third example: subscriber 1 subscribes to bus arrivals, two buses publish an arrival
  each, and the consumer serves both messages.
\<close>

definition second_arrival_message :: "unit message" where
  "second_arrival_message = \<lparr>msg_type = BUS_ARRIVAL, sender_id = ''Bus-2'', data = ()\<rparr>"

definition example_fifo_calls :: "(nat, unit) broker_call list" where
  "example_fifo_calls =
     [Subscribe 1 [BUS_ARRIVAL], Publish arrival_message, Publish second_arrival_message,
      ConsumerGet, ConsumerNext, ConsumerNext, ConsumerGet, ConsumerNext, ConsumerNext]"

section \<open>Invariants and scenarios\<close>

text \<open>The bus carries no more passengers than its capacity.\<close>

definition within_capacity :: "nat \<Rightarrow> world \<Rightarrow> bool" where
  "within_capacity b w \<longleftrightarrow> int (length (passenger_list (buses w b))) \<le> capacity (buses w b)"

text \<open>\<open>Bus.__init__\<close> and \<open>Passenger.__init__\<close>, and a store of fresh objects.\<close>

definition new_bus :: "int \<Rightarrow> nat option \<Rightarrow> bus" where
  "new_bus c s = \<lparr>capacity = c, passenger_list = [], current_stop = s, current_route = None\<rparr>"

definition new_passenger :: "origin_ref option \<Rightarrow> nat option \<Rightarrow> passenger" where
  "new_passenger d s =
     \<lparr>status = WAITING, status_history = [], destination = d, p_current_stop = s,
      p_current_bus = None, stops_visited = [], buses_taken = [], p_current_route = None\<rparr>"

definition empty_world :: world where
  "empty_world =
     \<lparr>buses = (\<lambda>b. new_bus 0 None), stops = (\<lambda>s. new_stop), stations = (\<lambda>t. []),
      routes = (\<lambda>r. []), passengers = (\<lambda>p. new_passenger None None)\<rparr>"

text \<open>
  Scenario A of the specification: stops 1 (A) and 2 (B), route 1 = [A, B], bus 1 of
  capacity 2 at A on route 1, passenger 1 created at A with destination \<open>d\<close> and registered
  at A with \<open>Stop.add_passenger\<close>, as the seed does. Station 1 owns stop B.
\<close>

definition scenario_A :: "origin_ref \<Rightarrow> world" where
  "scenario_A d =
     snd (stop_add_passenger 1 1
       (empty_world\<lparr>routes := (routes empty_world)(1 := [1, 2]),
                     stations := (stations empty_world)(1 := [2]),
                     buses := (buses empty_world)(1 := (new_bus 2 (Some 1))\<lparr>current_route := Some 1\<rparr>),
                     passengers := (passengers empty_world)(1 := new_passenger (Some d) (Some 1))\<rparr>))"

text \<open>
  The specification's invariant on a passenger's place (exactly one of the current stop and
  the current bus is set, unless the passenger has arrived), and what the code keeps instead.
\<close>

definition exactly_one_place :: "passenger \<Rightarrow> bool" where
  "exactly_one_place x \<longleftrightarrow>
     status x = ARRIVED \<or> (p_current_stop x = None) \<noteq> (p_current_bus x = None)"

definition placed :: "passenger \<Rightarrow> bool" where
  "placed x \<longleftrightarrow>
     p_current_stop x \<noteq> None \<and> (status x = IN_BUS \<longrightarrow> p_current_bus x \<noteq> None)"

text \<open>The values call \<open>c\<close> assigns to the status of passenger \<open>p\<close>, in order.\<close>

definition status_writes :: "call \<Rightarrow> world \<Rightarrow> nat \<Rightarrow> passenger_status list" where
  "status_writes c w p =
     drop (length (status_history (passengers w p))) (status_history (passengers (step c w) p))"

text \<open>
  The words of the specification for boarding: the destination stop set of a passenger (the
  stop itself, or the stops of a destination station), the remaining forward stops of a
  route (its stop list from the current stop's index onward), and the bus's remaining
  capacity.
\<close>

definition spec_destination_stops :: "world \<Rightarrow> origin_ref option \<Rightarrow> nat set" where
  "spec_destination_stops w d =
     (case d of
        None \<Rightarrow> {}
      | Some (StopRef s) \<Rightarrow> {s}
      | Some (StationRef t) \<Rightarrow> set (stations w t))"

definition forward_stops :: "nat list \<Rightarrow> nat \<Rightarrow> nat list" where
  "forward_stops route_stops cs = drop (index_of route_stops cs) route_stops"

definition remaining_capacity :: "bus \<Rightarrow> nat" where
  "remaining_capacity b = nat (capacity b - int (length (passenger_list b)))"

text \<open>The passengers \<open>_handle_boarding\<close> appended to the bus's list.\<close>

definition boarded :: "nat \<Rightarrow> world \<Rightarrow> nat list" where
  "boarded b w =
     drop (length (passenger_list (buses w b)))
       (passenger_list (buses (snd (handle_boarding b w)) b))"

text \<open>Scenario A with the bus admitted at A by \<open>Stop.bus_arrival\<close>.\<close>

definition scenario_A_admitted :: "origin_ref \<Rightarrow> world" where
  "scenario_A_admitted d = stop_bus_arrival 1 1 (scenario_A d)"

section \<open>Stop admission: proofs\<close>

lemma card_le_1_cases:
  assumes "finite A" "card A \<le> 1"
  shows "A = {} \<or> (\<exists>x. A = {x})"
proof (cases "A = {}")
  case True
  then show ?thesis by simp
next
  case False
  with assms have "0 < card A" by (simp add: card_gt_0_iff)
  with assms have "card A = 1" by linarith
  then show ?thesis by (auto simp: card_1_singleton_iff)
qed

lemma stop_occupancy_step:
  assumes "is_occupied s = (current_buses s \<noteq> {})"
  shows "is_occupied (stop_step c s) = (current_buses (stop_step c s) \<noteq> {})"
proof (cases c)
  case (BusArrival b)
  with assms show ?thesis by (simp add: bus_arrival_def)
next
  case (BusDeparture b)
  with assms show ?thesis
    by (auto simp: bus_departure_def Let_def split: list.splits)
next
  case QueueDrain
  with assms show ?thesis
    by (auto simp: manage_bus_queue_def bus_arrival_def split: list.splits)
qed

lemma stop_occupancy_run:
  "is_occupied s = (current_buses s \<noteq> {}) \<Longrightarrow>
   is_occupied (stop_run cs s) = (current_buses (stop_run cs s) \<noteq> {})"
proof (induction cs arbitrary: s)
  case Nil
  then show ?case by simp
next
  case (Cons c cs)
  from Cons.prems have "is_occupied (stop_step c s) = (current_buses (stop_step c s) \<noteq> {})"
    by (rule stop_occupancy_step)
  then show ?case using Cons.IH by simp
qed

lemma stop_inv_step:
  assumes "stop_inv s"
  shows "stop_inv (stop_step c s)"
proof (cases c)
  case (BusArrival b)
  with assms show ?thesis by (auto simp: stop_inv_def bus_arrival_def)
next
  case (BusDeparture b)
  from assms have fin: "finite (current_buses s)" and c1: "card (current_buses s) \<le> 1"
    by (simp_all add: stop_inv_def)
  show ?thesis
  proof (cases "b \<in> current_buses s")
    case False
    with assms BusDeparture show ?thesis by (simp add: bus_departure_def)
  next
    case True
    from card_le_1_cases[OF fin c1] True have "current_buses s = {b}" by auto
    with assms BusDeparture show ?thesis
      by (auto simp: stop_inv_def bus_departure_def Let_def split: list.splits)
  qed
next
  case QueueDrain
  with assms show ?thesis by (auto simp: stop_inv_def manage_bus_queue_def)
qed

lemma stop_inv_run: "stop_inv s \<Longrightarrow> stop_inv (stop_run cs s)"
  by (induction cs arbitrary: s) (simp_all add: stop_inv_step)

lemma stop_inv_new_stop: "stop_inv new_stop"
  by (simp add: stop_inv_def new_stop_def)

lemma stop_run_append: "stop_run (cs @ ds) s = stop_run ds (stop_run cs s)"
  by (induction cs arbitrary: s) simp_all

section \<open>Stop admission: claims\<close>

text \<open>
  C8. For every stop, in every state reached from a state with no admitted bus and
  \<open>is_occupied\<close> false by calls of \<open>bus_arrival\<close>, \<open>bus_departure\<close> and the stop agent's
  queue-drain step, \<open>is_occupied\<close> is true exactly when \<open>current_buses\<close> is non-empty; and
  when the only admitted bus \<open>b\<close> departs while the queue is \<open>h # rest\<close>, the same call
  admits \<open>h\<close>, leaves \<open>rest\<close> queued and the stop occupied.
\<close>

theorem stop_occupied_iff_admitted:
  assumes "current_buses s0 = {}" and "\<not> is_occupied s0" and "s = stop_run cs s0"
  shows "is_occupied s = (current_buses s \<noteq> {}) \<and>
         (current_buses s = {b} \<and> bus_queue s = h # rest \<longrightarrow>
            fst (bus_departure b s) \<and>
            current_buses (snd (bus_departure b s)) = {h} \<and>
            bus_queue (snd (bus_departure b s)) = rest \<and>
            is_occupied (snd (bus_departure b s)))"
proof -
  from assms have "is_occupied s0 = (current_buses s0 \<noteq> {})" by simp
  then have "is_occupied s = (current_buses s \<noteq> {})"
    unfolding assms(3) by (rule stop_occupancy_run)
  moreover have "current_buses s = {b} \<and> bus_queue s = h # rest \<longrightarrow>
            fst (bus_departure b s) \<and>
            current_buses (snd (bus_departure b s)) = {h} \<and>
            bus_queue (snd (bus_departure b s)) = rest \<and>
            is_occupied (snd (bus_departure b s))"
    by (simp add: bus_departure_def Let_def)
  ultimately show ?thesis by blast
qed

text \<open>
  Scenario B of the specification: bus 1 arrives and is admitted, bus 2 arrives and is
  queued, bus 1 departs and bus 2 is admitted.
\<close>

theorem stop_occupied_iff_admitted_witness:
  "current_buses new_stop = {} \<and> \<not> is_occupied new_stop \<and>
   is_occupied (stop_run [BusArrival 1, BusArrival 2] new_stop) \<and>
   current_buses (stop_run [BusArrival 1, BusArrival 2] new_stop) = {1} \<and>
   bus_queue (stop_run [BusArrival 1, BusArrival 2] new_stop) = [2] \<and>
   current_buses (snd (bus_departure 1 (stop_run [BusArrival 1, BusArrival 2] new_stop))) = {2} \<and>
   is_occupied (snd (bus_departure 1 (stop_run [BusArrival 1, BusArrival 2] new_stop)))"
  using stop_occupied_iff_admitted [of new_stop "stop_run [BusArrival 1, BusArrival 2] new_stop"
      "[BusArrival 1, BusArrival 2]" 1 2 "[]"]
  by (simp add: new_stop_def bus_arrival_def)

text \<open>
  C10. For every stop, after any sequence of \<open>bus_arrival\<close>, \<open>bus_departure\<close> and queue-drain
  calls on a freshly constructed stop, \<open>current_buses\<close> holds at most one bus; a bus
  arriving while a bus is admitted is appended to the rear of \<open>bus_queue\<close> and
  \<open>bus_arrival\<close> returns False; the queue-drain step changes nothing; and a queued bus
  that is not admitted becomes admitted only by a \<open>bus_departure\<close> call, as the head of the
  queue.
\<close>

theorem at_most_one_admitted_bus:
  assumes "s = stop_run cs new_stop"
  shows "finite (current_buses s) \<and> card (current_buses s) \<le> 1 \<and>
         (current_buses s \<noteq> {} \<longrightarrow>
            bus_arrival b s = (False, s\<lparr>bus_queue := bus_queue s @ [b]\<rparr>)) \<and>
         manage_bus_queue s = s \<and>
         (q \<in> set (bus_queue s) \<and> q \<notin> current_buses s \<and> q \<in> current_buses (stop_step c s) \<longrightarrow>
            is_departure c \<and> q = hd (bus_queue s))"
proof -
  have inv: "stop_inv s"
    unfolding assms by (rule stop_inv_run [OF stop_inv_new_stop])
  then have fin: "finite (current_buses s)" and c1: "card (current_buses s) \<le> 1"
    and occ: "is_occupied s = (current_buses s \<noteq> {})"
    and qe: "is_occupied s \<or> bus_queue s = []"
    by (auto simp: stop_inv_def)
  have arr: "current_buses s \<noteq> {} \<longrightarrow>
      bus_arrival b s = (False, s\<lparr>bus_queue := bus_queue s @ [b]\<rparr>)"
    using occ by (simp add: bus_arrival_def)
  have drain: "manage_bus_queue s = s"
    using qe by (auto simp: manage_bus_queue_def)
  have adm: "q \<in> set (bus_queue s) \<and> q \<notin> current_buses s \<and> q \<in> current_buses (stop_step c s) \<longrightarrow>
            is_departure c \<and> q = hd (bus_queue s)"
  proof (cases c)
    case (BusArrival x)
    then show ?thesis using qe by (auto simp: bus_arrival_def)
  next
    case (BusDeparture x)
    show ?thesis
    proof (cases "x \<in> current_buses s")
      case False
      with BusDeparture show ?thesis by (simp add: bus_departure_def)
    next
      case True
      with card_le_1_cases [OF fin c1] have "current_buses s = {x}" by auto
      with BusDeparture show ?thesis
        by (auto simp: bus_departure_def Let_def split: list.splits)
    qed
  next
    case QueueDrain
    then show ?thesis using drain by simp
  qed
  from fin c1 arr drain adm show ?thesis by blast
qed

theorem at_most_one_admitted_bus_witness:
  "current_buses (stop_run [BusArrival 1, BusArrival 2] new_stop) = {1} \<and>
   bus_queue (stop_run [BusArrival 1, BusArrival 2] new_stop) = [2] \<and>
   fst (bus_arrival 3 (stop_run [BusArrival 1, BusArrival 2] new_stop)) = False \<and>
   bus_queue (snd (bus_arrival 3 (stop_run [BusArrival 1, BusArrival 2] new_stop))) = [2, 3] \<and>
   2 \<in> current_buses (stop_step (BusDeparture 1) (stop_run [BusArrival 1, BusArrival 2] new_stop)) \<and>
   is_departure (BusDeparture 1)"
  using at_most_one_admitted_bus [of "stop_run [BusArrival 1, BusArrival 2] new_stop"
      "[BusArrival 1, BusArrival 2]" 3 2 "BusDeparture 1"]
  by (simp add: new_stop_def bus_arrival_def bus_departure_def)

section \<open>Store and bus agent: proofs\<close>

lemma set_passenger_list_simps [simp]:
  "buses (set_passenger_list b ps w) = (buses w)(b := (buses w b)\<lparr>passenger_list := ps\<rparr>)"
  "stops (set_passenger_list b ps w) = stops w"
  "stations (set_passenger_list b ps w) = stations w"
  "routes (set_passenger_list b ps w) = routes w"
  "passengers (set_passenger_list b ps w) = passengers w"
  by (simp_all add: set_passenger_list_def)

lemma set_current_stop_simps [simp]:
  "buses (set_current_stop b s w) = (buses w)(b := (buses w b)\<lparr>current_stop := s\<rparr>)"
  "stops (set_current_stop b s w) = stops w"
  "stations (set_current_stop b s w) = stations w"
  "routes (set_current_stop b s w) = routes w"
  "passengers (set_current_stop b s w) = passengers w"
  by (simp_all add: set_current_stop_def)

lemma set_p_current_bus_simps [simp]:
  "buses (set_p_current_bus p x w) = buses w"
  "stops (set_p_current_bus p x w) = stops w"
  "stations (set_p_current_bus p x w) = stations w"
  "routes (set_p_current_bus p x w) = routes w"
  "passengers (set_p_current_bus p x w) =
     (passengers w)(p := (passengers w p)\<lparr>p_current_bus := x\<rparr>)"
  by (simp_all add: set_p_current_bus_def)

lemma set_p_current_stop_simps [simp]:
  "buses (set_p_current_stop p x w) = buses w"
  "stops (set_p_current_stop p x w) = stops w"
  "stations (set_p_current_stop p x w) = stations w"
  "routes (set_p_current_stop p x w) = routes w"
  "passengers (set_p_current_stop p x w) =
     (passengers w)(p := (passengers w p)\<lparr>p_current_stop := x\<rparr>)"
  by (simp_all add: set_p_current_stop_def)

lemma set_stop_simps [simp]:
  "buses (set_stop s v w) = buses w"
  "stops (set_stop s v w) = (stops w)(s := v)"
  "stations (set_stop s v w) = stations w"
  "routes (set_stop s v w) = routes w"
  "passengers (set_stop s v w) = passengers w"
  by (simp_all add: set_stop_def)

text \<open>Whatever the elementary updates preserve, the bus agent preserves.\<close>

lemma handle_alighting_preserves:
  assumes rem: "\<And>b p w. P w \<Longrightarrow> P (snd (remove_passenger b p w))"
      and "P w"
  shows "P (handle_alighting b w)"
proof -
  have "P v \<Longrightarrow> P (fold (\<lambda>p v. snd (remove_passenger b p v)) ps v)" for ps v
    by (induction ps arbitrary: v) (simp_all add: rem)
  with \<open>P w\<close> show ?thesis by (simp add: handle_alighting_def)
qed

lemma boarding_loop_preserves:
  assumes add: "\<And>b p w. P w \<Longrightarrow> P (snd (add_passenger b p w))"
      and srem: "\<And>s p w. P w \<Longrightarrow> P (snd (stop_remove_passenger s p w))"
      and "P w"
  shows "P (snd (boarding_loop b sid ps w))"
  using \<open>P w\<close>
proof (induction ps arbitrary: w)
  case Nil
  then show ?case by simp
next
  case (Cons p ps)
  show ?case
  proof (cases "can_accept_passengers (buses w b) 1")
    case False
    then show ?thesis using Cons.IH [OF Cons.prems] by simp
  next
    case room: True
    show ?thesis
    proof (cases "can_accept_passenger b p w")
      case (Inl e)
      with room Cons.prems show ?thesis by simp
    next
      case (Inr ok)
      show ?thesis
      proof (cases ok)
        case False
        with room Inr show ?thesis using Cons.IH [OF Cons.prems] by simp
      next
        case True
        obtain r w1 where aw: "add_passenger b p w = (r, w1)" by (cases "add_passenger b p w")
        have "P (snd (add_passenger b p w))" using Cons.prems by (rule add)
        with aw have p1: "P w1" by simp
        then have p2: "P (snd (stop_remove_passenger sid p w1))" by (rule srem)
        show ?thesis
        proof (cases r)
          case True
          with room Inr \<open>ok\<close> aw show ?thesis using Cons.IH [OF p2] by simp
        next
          case False
          with room Inr \<open>ok\<close> aw show ?thesis using Cons.IH [OF p1] by simp
        qed
      qed
    qed
  qed
qed

lemma handle_passenger_exchange_preserves:
  assumes add: "\<And>b p w. P w \<Longrightarrow> P (snd (add_passenger b p w))"
      and rem: "\<And>b p w. P w \<Longrightarrow> P (snd (remove_passenger b p w))"
      and srem: "\<And>s p w. P w \<Longrightarrow> P (snd (stop_remove_passenger s p w))"
      and "P w"
  shows "P (snd (handle_passenger_exchange b w))"
proof -
  have al: "P (handle_alighting b w)"
    using rem \<open>P w\<close> by (rule handle_alighting_preserves)
  have "P (snd (handle_boarding b v))" if "P v" for v
    using that boarding_loop_preserves [where P = P, OF add srem that]
    by (simp add: handle_boarding_def split: option.splits)
  with al \<open>P w\<close> show ?thesis
    by (simp add: handle_passenger_exchange_def split: option.splits)
qed

lemma move_to_next_stop_preserves:
  assumes cur: "\<And>b s w. P w \<Longrightarrow> P (set_current_stop b s w)"
      and st: "\<And>s v w. P w \<Longrightarrow> P (set_stop s v w)"
      and "P w"
  shows "P (snd (move_to_next_stop b w))"
proof -
  have dep: "P (stop_bus_departure s c v)" if "P v" for s c v
    using that by (simp add: stop_bus_departure_def st)
  have arr: "P (stop_bus_arrival s c v)" if "P v" for s c v
    using that by (simp add: stop_bus_arrival_def st)
  show ?thesis
    using \<open>P w\<close>
    by (simp add: move_to_next_stop_def Let_def dep arr cur split: option.splits)
qed

lemma bus_cycle_preserves:
  assumes add: "\<And>b p w. P w \<Longrightarrow> P (snd (add_passenger b p w))"
      and rem: "\<And>b p w. P w \<Longrightarrow> P (snd (remove_passenger b p w))"
      and srem: "\<And>s p w. P w \<Longrightarrow> P (snd (stop_remove_passenger s p w))"
      and cur: "\<And>b s w. P w \<Longrightarrow> P (set_current_stop b s w)"
      and st: "\<And>s v w. P w \<Longrightarrow> P (set_stop s v w)"
      and "P w"
  shows "P (bus_cycle b w)"
proof -
  have ex: "P (snd (handle_passenger_exchange b w))"
    using add rem srem \<open>P w\<close> by (rule handle_passenger_exchange_preserves)
  have "P (snd (move_to_next_stop b (snd (handle_passenger_exchange b w))))"
    using cur st ex by (rule move_to_next_stop_preserves)
  with ex \<open>P w\<close> show ?thesis
    by (auto simp: bus_cycle_def split: prod.splits option.splits)
qed

lemma length_remove1_le: "length (remove1 x xs) \<le> length xs"
  by (induction xs) auto

lemma within_capacity_add: "within_capacity b w \<Longrightarrow> within_capacity b (snd (add_passenger c p w))"
  by (auto simp: within_capacity_def add_passenger_def can_accept_passengers_def)

lemma within_capacity_remove:
  "within_capacity b w \<Longrightarrow> within_capacity b (snd (remove_passenger c p w))"
  using length_remove1_le [of p "passenger_list (buses w c)"]
  by (auto simp: within_capacity_def remove_passenger_def)

lemma handler_empty_seed [simp]:
  "handle_passenger_alighting_confirmation STSSeed_passengers s d w = w"
  by (simp add: handle_passenger_alighting_confirmation_def STSSeed_passengers_def
      split: option.splits)

lemma buses_board_bus [simp]: "buses (snd (board_bus p b w)) = buses w"
  by (simp add: board_bus_def Let_def)

lemma buses_alight_bus [simp]: "buses (snd (alight_bus p s w)) = buses w"
  by (simp add: alight_bus_def Let_def)

lemma buses_stop_add_passenger [simp]: "buses (snd (stop_add_passenger s p w)) = buses w"
  by (simp add: stop_add_passenger_def)

lemma buses_stop_remove_passenger [simp]: "buses (snd (stop_remove_passenger s p w)) = buses w"
  by (simp add: stop_remove_passenger_def)

lemma within_capacity_step: "within_capacity b w \<Longrightarrow> within_capacity b (step c w)"
proof (cases c)
  case (BusCycle x)
  assume "within_capacity b w"
  then have "within_capacity b (bus_cycle x w)"
    by (rule bus_cycle_preserves [where P = "within_capacity b", rotated -1])
       (auto simp: within_capacity_add within_capacity_remove, auto simp: within_capacity_def)
  with BusCycle show ?thesis by simp
qed (auto simp: within_capacity_add within_capacity_remove, auto simp: within_capacity_def)

lemma within_capacity_run: "within_capacity b w \<Longrightarrow> within_capacity b (run cs w)"
  by (induction cs arbitrary: w) (simp_all add: within_capacity_step)

section \<open>Bus capacity: claim\<close>

text \<open>
  C3. For every bus of non-negative capacity (the maximum number of passengers it can
  carry) that starts empty, after every sequence of calls on the store, among them
  \<open>Bus.add_passenger\<close> and \<open>Bus.remove_passenger\<close> on any bus, the length of its passenger
  list is at most its capacity; and on a full bus \<open>add_passenger\<close> returns False and
  leaves the store, hence the passenger list, unchanged.
\<close>

theorem bus_never_over_capacity:
  assumes "passenger_list (buses w0 b) = []" and "0 \<le> capacity (buses w0 b)"
  shows "int (length (passenger_list (buses (run cs w0) b))) \<le> capacity (buses (run cs w0) b) \<and>
         (is_full (buses w c) \<longrightarrow>
            fst (add_passenger c p w) = False \<and> snd (add_passenger c p w) = w)"
proof -
  from assms have "within_capacity b w0" by (simp add: within_capacity_def)
  then have "within_capacity b (run cs w0)" by (rule within_capacity_run)
  then show ?thesis
    by (auto simp: within_capacity_def is_full_def add_passenger_def can_accept_passengers_def)
qed

theorem bus_never_over_capacity_witness:
  "passenger_list (buses (scenario_A (StopRef 2)) 1) = [] \<and>
   0 \<le> capacity (buses (scenario_A (StopRef 2)) 1) \<and>
   passenger_list (buses (run [BusAddPassenger 1 1, BusAddPassenger 1 2, BusAddPassenger 1 3,
       BusRemovePassenger 1 1] (scenario_A (StopRef 2))) 1) = [2] \<and>
   is_full (buses (run [BusAddPassenger 1 1, BusAddPassenger 1 2] (scenario_A (StopRef 2))) 1) \<and>
   fst (add_passenger 1 3 (run [BusAddPassenger 1 1, BusAddPassenger 1 2] (scenario_A (StopRef 2)))) = False"
  using bus_never_over_capacity [where ?w0.0 = "scenario_A (StopRef 2)" and b = 1
      and w = "run [BusAddPassenger 1 1, BusAddPassenger 1 2] (scenario_A (StopRef 2))" and c = 1
      and cs = "[BusAddPassenger 1 1, BusAddPassenger 1 2, BusAddPassenger 1 3,
                 BusRemovePassenger 1 1]" and p = 3]
  by (simp add: scenario_A_def empty_world_def new_bus_def new_passenger_def new_stop_def
      stop_add_passenger_def stop_can_accept_passengers_def add_passenger_def
      remove_passenger_def can_accept_passengers_def is_full_def)

section \<open>Passenger place: claim\<close>

lemma placed_step:
  assumes "placed (passengers w p)" and "boarding_or_alighting c"
  shows "placed (passengers (step c w) p)"
proof (cases c)
  case (BoardBus q b)
  with assms show ?thesis
    by (auto simp: placed_def board_bus_def Let_def set_status_def split: option.splits)
next
  case (AlightBus q s)
  with assms show ?thesis
    by (auto simp: placed_def alight_bus_def Let_def set_status_def)
next
  case (BusAddPassenger b q)
  with assms show ?thesis
    by (auto simp: placed_def add_passenger_def)
next
  case (StopRemovePassenger s q)
  with assms show ?thesis
    by (auto simp: placed_def stop_remove_passenger_def)
qed (use assms in simp_all)

lemma placed_run:
  "placed (passengers w p) \<Longrightarrow> list_all boarding_or_alighting cs \<Longrightarrow>
   placed (passengers (run cs w) p)"
  by (induction cs arbitrary: w) (simp_all add: placed_step)

text \<open>
  C2, as stated, fails: in scenario A the waiting passenger has a current stop and no
  current bus; after \<open>board_bus\<close> its status is IN_BUS and both its current stop and its
  current bus are set.
\<close>

theorem passenger_both_places_counterexample:
  "exactly_one_place (passengers (scenario_A (StopRef 2)) 1) \<and>
   boarding_or_alighting (BoardBus 1 1) \<and>
   \<not> exactly_one_place (passengers (run [BoardBus 1 1] (scenario_A (StopRef 2))) 1)"
  by (simp add: exactly_one_place_def scenario_A_def empty_world_def new_bus_def
      new_passenger_def new_stop_def stop_add_passenger_def stop_can_accept_passengers_def
      board_bus_def can_accept_passengers_def set_status_def Let_def)

text \<open>
  C2, amended. For every passenger whose current stop is set (and whose current bus is set if
  its status is IN_BUS), in every state reached by \<open>Passenger.board_bus\<close>,
  \<open>Bus.add_passenger\<close>, \<open>Stop.remove_passenger\<close> and \<open>Passenger.alight_bus\<close> calls the
  current stop is still set, so at least one of the two is set, and the current bus is set
  whenever the status is IN_BUS. The two are not exclusive: a successful \<open>board_bus\<close> or
  \<open>add_passenger\<close> sets the current bus and leaves the current stop as it was; \<open>alight_bus\<close>
  on a passenger in a bus clears the current bus and sets the current stop; and none of
  \<open>board_bus\<close>, \<open>add_passenger\<close> and \<open>Stop.remove_passenger\<close> clears a current bus.
\<close>

theorem passenger_stop_always_set:
  assumes "placed (passengers w0 p)" and "list_all boarding_or_alighting cs"
  shows "placed (passengers (run cs w0) p) \<and>
         (fst (board_bus p b w) \<longrightarrow>
            p_current_bus (passengers (snd (board_bus p b w)) p) = Some b \<and>
            p_current_stop (passengers (snd (board_bus p b w)) p) = p_current_stop (passengers w p)) \<and>
         (fst (add_passenger b p w) \<longrightarrow>
            p_current_bus (passengers (snd (add_passenger b p w)) p) = Some b \<and>
            p_current_stop (passengers (snd (add_passenger b p w)) p) = p_current_stop (passengers w p)) \<and>
         (status (passengers w p) = IN_BUS \<longrightarrow>
            p_current_bus (passengers (snd (alight_bus p s w)) p) = None \<and>
            p_current_stop (passengers (snd (alight_bus p s w)) p) = Some s) \<and>
         (p_current_bus (passengers w p) \<noteq> None \<longrightarrow>
            p_current_bus (passengers (snd (board_bus q b w)) p) \<noteq> None \<and>
            p_current_bus (passengers (snd (add_passenger b q w)) p) \<noteq> None \<and>
            p_current_bus (passengers (snd (stop_remove_passenger s q w)) p) \<noteq> None)"
proof -
  have "placed (passengers (run cs w0) p)"
    using assms by (rule placed_run)
  moreover have "p_current_bus (passengers w p) \<noteq> None \<longrightarrow>
            p_current_bus (passengers (snd (board_bus q b w)) p) \<noteq> None \<and>
            p_current_bus (passengers (snd (add_passenger b q w)) p) \<noteq> None \<and>
            p_current_bus (passengers (snd (stop_remove_passenger s q w)) p) \<noteq> None"
    by (simp add: board_bus_def add_passenger_def stop_remove_passenger_def Let_def
        set_status_def split: option.splits)
  moreover have "fst (board_bus p b w) \<longrightarrow>
            p_current_bus (passengers (snd (board_bus p b w)) p) = Some b \<and>
            p_current_stop (passengers (snd (board_bus p b w)) p) = p_current_stop (passengers w p)"
    by (simp add: board_bus_def Let_def set_status_def split: option.splits)
  moreover have "fst (add_passenger b p w) \<longrightarrow>
            p_current_bus (passengers (snd (add_passenger b p w)) p) = Some b \<and>
            p_current_stop (passengers (snd (add_passenger b p w)) p) = p_current_stop (passengers w p)"
    by (simp add: add_passenger_def)
  moreover have "status (passengers w p) = IN_BUS \<longrightarrow>
            p_current_bus (passengers (snd (alight_bus p s w)) p) = None \<and>
            p_current_stop (passengers (snd (alight_bus p s w)) p) = Some s"
    by (simp add: alight_bus_def Let_def set_status_def)
  ultimately show ?thesis by blast
qed

theorem passenger_stop_always_set_witness:
  "placed (passengers (scenario_A (StopRef 2)) 1) \<and>
   list_all boarding_or_alighting [BoardBus 1 1, BusAddPassenger 1 1, StopRemovePassenger 1 1] \<and>
   placed (passengers (run [BoardBus 1 1, BusAddPassenger 1 1, StopRemovePassenger 1 1]
             (scenario_A (StopRef 2))) 1) \<and>
   fst (board_bus 1 1 (scenario_A (StopRef 2))) \<and>
   p_current_bus (passengers (snd (board_bus 1 1 (scenario_A (StopRef 2)))) 1) = Some 1 \<and>
   p_current_stop (passengers (snd (board_bus 1 1 (scenario_A (StopRef 2)))) 1) = Some 1"
  using passenger_stop_always_set [where ?w0.0 = "scenario_A (StopRef 2)" and p = 1
      and cs = "[BoardBus 1 1, BusAddPassenger 1 1, StopRemovePassenger 1 1]"
      and w = "scenario_A (StopRef 2)" and b = 1 and s = 2]
  by (simp add: placed_def scenario_A_def empty_world_def new_bus_def
      new_passenger_def new_stop_def stop_add_passenger_def stop_can_accept_passengers_def
      board_bus_def can_accept_passengers_def set_status_def Let_def)

section \<open>Bus advance: claim\<close>

lemma index_of_less: "a \<in> set xs \<Longrightarrow> index_of xs a < length xs"
  by (induction xs) (auto simp: index_of_def)

lemma nth_index_of: "a \<in> set xs \<Longrightarrow> xs ! index_of xs a = a"
  by (induction xs) (auto simp: index_of_def)

lemma drop_index_of: "drop (index_of xs a) xs = dropWhile (\<lambda>x. x \<noteq> a) xs"
  by (simp add: index_of_def dropWhile_eq_drop)

lemma move_target_cases:
  assumes "cs \<in> set xs"
  shows "(index_of xs cs + 1 < length xs \<longrightarrow> move_target xs cs = xs ! (index_of xs cs + 1)) \<and>
         (index_of xs cs + 1 = length xs \<longrightarrow> move_target xs cs = xs ! 0) \<and>
         move_target xs cs \<in> set xs"
proof -
  from assms have lt: "index_of xs cs < length xs" by (rule index_of_less)
  from assms have "0 < length xs" by (cases xs) simp_all
  then have "xs ! 0 \<in> set xs" by (rule nth_mem)
  moreover have "index_of xs cs + 1 < length xs \<Longrightarrow> xs ! (index_of xs cs + 1) \<in> set xs"
    by (rule nth_mem)
  ultimately show ?thesis using lt by (auto simp: move_target_def Let_def)
qed

text \<open>
  C6. In every advance step of the bus agent where the bus has a route and its current stop
  is on the route's stop list, the step succeeds and the bus moves to the stop at the next
  index if the current stop's index is not the last, and to the stop at index 0 if it is
  the last, so it stays on the route. The step is the departure notification of the old
  stop, made while the bus's current stop is still the old one, then the assignment of the
  current stop, then the arrival notification of the new stop, made when the current stop
  is already the new one.
\<close>

theorem bus_advances_and_wraps:
  assumes "current_route (buses w b) = Some r" and "current_stop (buses w b) = Some cs"
      and "cs \<in> set (routes w r)"
  shows "fst (move_to_next_stop b w) \<and>
         current_stop (buses (snd (move_to_next_stop b w)) b) = Some (move_target (routes w r) cs) \<and>
         index_of (routes w r) cs < length (routes w r) \<and>
         routes w r ! index_of (routes w r) cs = cs \<and>
         (index_of (routes w r) cs + 1 < length (routes w r) \<longrightarrow>
            move_target (routes w r) cs = routes w r ! (index_of (routes w r) cs + 1)) \<and>
         (index_of (routes w r) cs + 1 = length (routes w r) \<longrightarrow>
            move_target (routes w r) cs = routes w r ! 0) \<and>
         move_target (routes w r) cs \<in> set (routes w r) \<and>
         snd (move_to_next_stop b w) =
           stop_bus_arrival (move_target (routes w r) cs) b
             (set_current_stop b (Some (move_target (routes w r) cs))
               (stop_bus_departure cs b w)) \<and>
         current_stop (buses (stop_bus_departure cs b w) b) = Some cs \<and>
         current_stop (buses (set_current_stop b (Some (move_target (routes w r) cs))
               (stop_bus_departure cs b w)) b) = Some (move_target (routes w r) cs)"
proof -
  from assms(3) have ne: "routes w r \<noteq> []" by auto
  have eq: "move_to_next_stop b w =
      (True, stop_bus_arrival (move_target (routes w r) cs) b
             (set_current_stop b (Some (move_target (routes w r) cs))
               (stop_bus_departure cs b w)))"
    using assms ne by (simp add: move_to_next_stop_def Let_def)
  have a: "current_stop (buses (stop_bus_departure cs b w) b) = Some cs"
    using assms by (simp add: stop_bus_departure_def)
  have c: "current_stop (buses (snd (move_to_next_stop b w)) b) = Some (move_target (routes w r) cs)"
    by (simp add: eq stop_bus_arrival_def)
  show ?thesis
    using move_target_cases [OF assms(3)] index_of_less [OF assms(3)] nth_index_of [OF assms(3)]
      a c
    by (simp add: eq)
qed

theorem bus_advances_and_wraps_witness:
  "current_route (buses (scenario_A (StopRef 2)) 1) = Some 1 \<and>
   current_stop (buses (scenario_A (StopRef 2)) 1) = Some 1 \<and>
   1 \<in> set (routes (scenario_A (StopRef 2)) 1) \<and>
   current_stop (buses (snd (move_to_next_stop 1 (scenario_A (StopRef 2)))) 1) = Some 2 \<and>
   current_stop (buses (snd (move_to_next_stop 1
       (snd (move_to_next_stop 1 (scenario_A (StopRef 2)))))) 1) = Some 1"
  using bus_advances_and_wraps [where w = "scenario_A (StopRef 2)" and b = 1 and r = 1 and cs = 1]
    bus_advances_and_wraps [where w = "snd (move_to_next_stop 1 (scenario_A (StopRef 2)))"
      and b = 1 and r = 1 and cs = 2]
  by (simp add: scenario_A_def empty_world_def new_bus_def new_passenger_def new_stop_def
      stop_add_passenger_def stop_can_accept_passengers_def move_to_next_stop_def
      move_target_def index_of_def stop_bus_arrival_def stop_bus_departure_def
      bus_arrival_def bus_departure_def Let_def)

section \<open>Boarding: proofs\<close>

text \<open>The eligibility test reads the bus's route and stop, the routes, the stations, the
  destinations and the stops' own stop lists only.\<close>

lemma can_accept_passenger_cong:
  assumes "current_route (buses v b) = current_route (buses w b)"
      and "current_stop (buses v b) = current_stop (buses w b)"
      and "routes v = routes w" and "stations v = stations w"
      and "\<And>q. destination (passengers v q) = destination (passengers w q)"
      and "\<And>s. stop_list (stops v s) = stop_list (stops w s)"
  shows "can_accept_passenger b q v = can_accept_passenger b q w"
proof -
  have "dest_stop_list v d = dest_stop_list w d" for d
    unfolding dest_stop_list_def using assms(4,6)
    by (cases d) (simp_all split: origin_ref.splits)
  then show ?thesis
    unfolding can_accept_passenger_def using assms(1,2,3,5)
    by (simp cong: option.case_cong if_cong)
qed

lemma boarding_frame:
  "current_route (buses (snd (stop_remove_passenger s p (snd (add_passenger c p w)))) b)
     = current_route (buses w b)"
  "current_stop (buses (snd (stop_remove_passenger s p (snd (add_passenger c p w)))) b)
     = current_stop (buses w b)"
  "capacity (buses (snd (stop_remove_passenger s p (snd (add_passenger c p w)))) b)
     = capacity (buses w b)"
  "routes (snd (stop_remove_passenger s p (snd (add_passenger c p w)))) = routes w"
  "stations (snd (stop_remove_passenger s p (snd (add_passenger c p w)))) = stations w"
  "destination (passengers (snd (stop_remove_passenger s p (snd (add_passenger c p w)))) q)
     = destination (passengers w q)"
  "stop_list (stops (snd (stop_remove_passenger s p (snd (add_passenger c p w)))) t)
     = stop_list (stops w t)"
  by (simp_all add: stop_remove_passenger_def add_passenger_def)


lemma can_accept_passenger_after_boarding:
  "can_accept_passenger b q (snd (stop_remove_passenger s p (snd (add_passenger c p w)))) =
   can_accept_passenger b q w"
  by (rule can_accept_passenger_cong) (rule boarding_frame)+

lemma can_accept_passenger_no_error:
  assumes "current_stop (buses w b) = Some sid" and "current_route (buses w b) = Some r"
      and "sid \<in> set (routes w r)" and "can_accept_passenger b p w \<noteq> Inr True"
  shows "can_accept_passenger b p w = Inr False"
  using assms by (simp add: can_accept_passenger_def Let_def split: option.splits)

lemma boarding_loop_result:
  assumes "current_stop (buses w b) = Some sid" and "current_route (buses w b) = Some r"
      and "sid \<in> set (routes w r)"
  shows "fst (boarding_loop b s ps w) = None \<and>
         passenger_list (buses (snd (boarding_loop b s ps w)) b) =
           passenger_list (buses w b) @
             take (remaining_capacity (buses w b))
               (filter (\<lambda>p. can_accept_passenger b p w = Inr True) ps)"
  using assms
proof (induction ps arbitrary: w)
  case Nil
  then show ?case by simp
next
  case (Cons p ps)
  show ?case
  proof (cases "can_accept_passengers (buses w b) 1")
    case False
    then have "remaining_capacity (buses w b) = 0"
      by (simp add: remaining_capacity_def can_accept_passengers_def)
    with False Cons.IH [OF Cons.prems] show ?thesis by simp
  next
    case room: True
    show ?thesis
    proof (cases "can_accept_passenger b p w = Inr True")
      case False
      with Cons.prems have "can_accept_passenger b p w = Inr False"
        by (rule can_accept_passenger_no_error)
      with room False Cons.IH [OF Cons.prems] show ?thesis by simp
    next
      case True
      define w1 where "w1 = snd (add_passenger b p w)"
      define w2 where "w2 = snd (stop_remove_passenger s p w1)"
      have add: "add_passenger b p w = (True, w1)"
        using room by (simp add: add_passenger_def w1_def)
      have loop: "boarding_loop b s (p # ps) w = boarding_loop b s ps w2"
        using room True by (simp add: add w2_def)
      have frame: "current_stop (buses w2 b) = Some sid" "current_route (buses w2 b) = Some r"
        "sid \<in> set (routes w2 r)"
        using Cons.prems
        by (simp_all add: w2_def w1_def add_passenger_def stop_remove_passenger_def)
      have cap: "capacity (buses w2 b) = capacity (buses w b)"
        by (simp add: w2_def w1_def add_passenger_def)
      have lst: "passenger_list (buses w2 b) = passenger_list (buses w b) @ [p]"
        using room by (simp add: w2_def w1_def stop_remove_passenger_def add_passenger_def)
      have elig: "(\<lambda>q. can_accept_passenger b q w2 = Inr True) =
                  (\<lambda>q. can_accept_passenger b q w = Inr True)"
        by (simp add: w2_def w1_def can_accept_passenger_after_boarding)
      from room have pos: "remaining_capacity (buses w b) =
          Suc (remaining_capacity (buses w2 b))"
        by (simp add: remaining_capacity_def can_accept_passengers_def lst cap)
      from Cons.IH [OF frame] show ?thesis
        unfolding loop by (simp add: elig lst pos True)
    qed
  qed
qed


lemma handle_boarding_result:
  assumes "current_stop (buses w b) = Some sid" and "current_route (buses w b) = Some r"
      and "sid \<in> set (routes w r)"
  shows "fst (handle_boarding b w) = None \<and>
         passenger_list (buses (snd (handle_boarding b w)) b) =
           passenger_list (buses w b) @
             take (remaining_capacity (buses w b))
               (filter (\<lambda>p. can_accept_passenger b p w = Inr True)
                  (waiting_passengers (stops w sid)))"
proof (cases "is_full (buses w b)")
  case True
  then have "remaining_capacity (buses w b) = 0"
    by (simp add: remaining_capacity_def is_full_def)
  with True show ?thesis by (simp add: handle_boarding_def)
next
  case False
  with boarding_loop_result [OF assms, of sid "waiting_passengers (stops w sid)"] assms(1)
  show ?thesis by (simp add: handle_boarding_def)
qed

lemma eligible_meets_forward_stops:
  assumes "current_stop (buses w b) = Some sid" and "current_route (buses w b) = Some r"
      and "\<forall>s. stop_list (stops w s) = []"
      and "can_accept_passenger b p w = Inr True"
  shows "spec_destination_stops w (destination (passengers w p)) \<inter>
           set (forward_stops (routes w r) sid) \<noteq> {}"
proof (cases "destination (passengers w p)")
  case None
  with assms show ?thesis
    by (simp add: can_accept_passenger_def dest_stop_list_def Let_def split: if_splits)
next
  case (Some d)
  show ?thesis
  proof (cases d)
    case (StopRef x)
    with Some assms show ?thesis
      by (simp add: can_accept_passenger_def dest_stop_list_def Let_def split: if_splits)
  next
    case (StationRef t)
    with Some assms have "list_ex (\<lambda>s. s \<in> set (forward_stops (routes w r) sid)) (stations w t)"
      by (simp add: can_accept_passenger_def dest_stop_list_def forward_stops_def Let_def
          split: if_splits)
    then obtain s where "s \<in> set (stations w t)" "s \<in> set (forward_stops (routes w r) sid)"
      by (auto simp: list_ex_iff)
    with Some StationRef show ?thesis
      by (auto simp: spec_destination_stops_def)
  qed
qed

section \<open>Boarding: claim\<close>

text \<open>
  C7. In every boarding step of the bus agent, for a bus whose current stop is on its
  current route (and with stops owning no stops of their own, as \<open>Stop.__init__\<close> leaves
  them), no exception is raised and the passengers appended to the bus's list are the first
  waiting passengers that pass the agent's test, in waiting-list order, as many as the
  remaining capacity allows: a subsequence of the waiting list, no longer than the
  remaining capacity, and each boarded passenger's destination stop set (the stop itself,
  or the stops of a destination station) meets the route's stop list from the current
  stop's index onward.
\<close>

theorem boarding_in_waiting_order:
  assumes "current_stop (buses w b) = Some sid" and "current_route (buses w b) = Some r"
      and "sid \<in> set (routes w r)" and "\<forall>s. stop_list (stops w s) = []"
  shows "fst (handle_boarding b w) = None \<and>
         passenger_list (buses (snd (handle_boarding b w)) b) =
           passenger_list (buses w b) @ boarded b w \<and>
         boarded b w = take (remaining_capacity (buses w b))
           (filter (\<lambda>p. can_accept_passenger b p w = Inr True) (waiting_passengers (stops w sid))) \<and>
         subseq (boarded b w) (waiting_passengers (stops w sid)) \<and>
         length (boarded b w) \<le> remaining_capacity (buses w b) \<and>
         (\<forall>p \<in> set (boarded b w).
            spec_destination_stops w (destination (passengers w p)) \<inter>
              set (forward_stops (routes w r) sid) \<noteq> {})"
proof -
  let ?el = "filter (\<lambda>p. can_accept_passenger b p w = Inr True) (waiting_passengers (stops w sid))"
  note res = handle_boarding_result [OF assms(1-3)]
  from res have ok: "fst (handle_boarding b w) = None" by simp
  from res have b_eq: "boarded b w = take (remaining_capacity (buses w b)) ?el"
    by (simp add: boarded_def)
  from res have app: "passenger_list (buses (snd (handle_boarding b w)) b) =
      passenger_list (buses w b) @ boarded b w"
    by (simp add: b_eq)
  have sub: "subseq (boarded b w) (waiting_passengers (stops w sid))"
  proof -
    have "subseq (boarded b w) ?el"
      unfolding b_eq by (rule prefix_imp_subseq) (rule take_is_prefix)
    moreover have "subseq ?el (waiting_passengers (stops w sid))"
      by (rule subseq_filter_left)
    ultimately show ?thesis by (rule subseq_order.trans)
  qed
  have len: "length (boarded b w) \<le> remaining_capacity (buses w b)"
    unfolding b_eq by simp
  have dest: "\<forall>p \<in> set (boarded b w).
            spec_destination_stops w (destination (passengers w p)) \<inter>
              set (forward_stops (routes w r) sid) \<noteq> {}"
  proof
    fix p assume "p \<in> set (boarded b w)"
    then have "p \<in> set ?el" unfolding b_eq by (rule in_set_takeD)
    then have "can_accept_passenger b p w = Inr True" by simp
    with assms(1,2,4) show "spec_destination_stops w (destination (passengers w p)) \<inter>
              set (forward_stops (routes w r) sid) \<noteq> {}"
      by (rule eligible_meets_forward_stops)
  qed
  from ok app b_eq sub len dest show ?thesis by (intro conjI)
qed

theorem boarding_in_waiting_order_witness:
  "current_stop (buses (scenario_A (StationRef 1)) 1) = Some 1 \<and>
   current_route (buses (scenario_A (StationRef 1)) 1) = Some 1 \<and>
   1 \<in> set (routes (scenario_A (StationRef 1)) 1) \<and>
   (\<forall>s. stop_list (stops (scenario_A (StationRef 1)) s) = []) \<and>
   waiting_passengers (stops (scenario_A (StationRef 1)) 1) = [1] \<and>
   remaining_capacity (buses (scenario_A (StationRef 1)) 1) = 2 \<and>
   boarded 1 (scenario_A (StationRef 1)) = [1] \<and>
   passenger_list (buses (snd (handle_boarding 1 (scenario_A (StationRef 1)))) 1) = [1]"
  using boarding_in_waiting_order [where w = "scenario_A (StationRef 1)" and b = 1 and sid = 1
      and r = 1]
  by (simp add: scenario_A_def empty_world_def new_bus_def new_passenger_def new_stop_def
      stop_add_passenger_def stop_can_accept_passengers_def remaining_capacity_def
      can_accept_passenger_def dest_stop_list_def index_of_def)

text \<open>A passenger bound for a stop never passes the agent's test.\<close>

lemma stop_destination_not_accepted:
  assumes "destination (passengers w p) = Some (StopRef d)" and "stop_list (stops w d) = []"
  shows "can_accept_passenger b p w \<noteq> Inr True"
  using assms
  by (simp add: can_accept_passenger_def dest_stop_list_def Let_def split: option.splits)

section \<open>Passenger status: claim\<close>

text \<open>No object of the store passes the class tests of \<open>is_at_destination\<close>.\<close>

lemma is_at_destination_False [simp]: "\<not> is_at_destination w x"
proof -
  have "\<not> isinstance d Models_Stop" and "\<not> isinstance d Models_Station" for d
    by (cases d; simp add: isinstance_def)+
  then show ?thesis
    by (simp add: is_at_destination_def split: option.splits)
qed

lemma bus_cycle_passenger_status:
  "status_history (passengers (bus_cycle b w) p) = status_history (passengers w p) \<and>
   status (passengers (bus_cycle b w) p) = status (passengers w p)"
proof -
  define P where "P v \<longleftrightarrow> status_history (passengers v p) = status_history (passengers w p) \<and>
     status (passengers v p) = status (passengers w p)" for v :: world
  have "P w" by (simp add: P_def)
  then have "P (bus_cycle b w)"
    by (rule bus_cycle_preserves [where P = P, rotated -1])
       (auto simp: P_def add_passenger_def remove_passenger_def stop_remove_passenger_def)
  then show ?thesis by (simp add: P_def)
qed

lemma status_writes_cases:
  "status_history (passengers (step c w) p) = status_history (passengers w p) @ status_writes c w p \<and>
   (status_writes c w p = [] \<and> status (passengers (step c w) p) = status (passengers w p) \<or>
    status (passengers w p) = WAITING \<and> status_writes c w p = [BOARDING, IN_BUS] \<and>
      status (passengers (step c w) p) = IN_BUS \<or>
    status (passengers w p) = IN_BUS \<and> status_writes c w p = [ALIGHTING, WAITING] \<and>
      status (passengers (step c w) p) = WAITING)"
proof (cases c)
  case (BoardBus q b)
  then show ?thesis
    by (auto simp: status_writes_def board_bus_def Let_def set_status_def split: option.splits)
next
  case (AlightBus q s)
  then show ?thesis
    by (auto simp: status_writes_def alight_bus_def Let_def set_status_def)
next
  case (BusAddPassenger b q)
  then show ?thesis by (auto simp: status_writes_def add_passenger_def)
next
  case (BusRemovePassenger b q)
  then show ?thesis by (auto simp: status_writes_def remove_passenger_def)
next
  case (StopAddPassenger s q)
  then show ?thesis by (auto simp: status_writes_def stop_add_passenger_def)
next
  case (StopRemovePassenger s q)
  then show ?thesis by (auto simp: status_writes_def stop_remove_passenger_def)
next
  case (AlightingConfirmation s d)
  then show ?thesis by (simp add: status_writes_def)
next
  case (BusCycle b)
  then show ?thesis by (simp add: status_writes_def bus_cycle_passenger_status)
qed

text \<open>
  C9. For every passenger and every call on the store (\<open>board_bus\<close>, \<open>alight_bus\<close>, the bus
  and stop list operations, the bus agent's cycle, the stop adapter's handler of alighting
  confirmations), the values the call assigns to the passenger's status, taken in order
  from the status before the call, follow only the steps WAITING to BOARDING, BOARDING to
  IN_BUS, IN_BUS to ALIGHTING, ALIGHTING to WAITING and ALIGHTING to ARRIVED; the status
  after the call is the last value assigned; no call assigns a status to a passenger that
  has ARRIVED; and the adapter's handler assigns no status at all.
\<close>

theorem status_follows_chain:
  "status_history (passengers (step c w) p) = status_history (passengers w p) @ status_writes c w p \<and>
   status (passengers (step c w) p) = last (status (passengers w p) # status_writes c w p) \<and>
   follows chain (status (passengers w p)) (status_writes c w p) \<and>
   (status (passengers w p) = ARRIVED \<longrightarrow>
      status_writes c w p = [] \<and> status (passengers (step c w) p) = ARRIVED) \<and>
   status_writes (AlightingConfirmation s d) w p = []"
proof -
  note main = status_writes_cases [of c w p]
  have h: "status_history (passengers (step c w) p) =
      status_history (passengers w p) @ status_writes c w p"
    using main by simp
  have l: "status (passengers (step c w) p) = last (status (passengers w p) # status_writes c w p)"
    using main by auto
  have f: "follows chain (status (passengers w p)) (status_writes c w p)"
    using main by auto
  have a: "status (passengers w p) = ARRIVED \<longrightarrow>
      status_writes c w p = [] \<and> status (passengers (step c w) p) = ARRIVED"
    using main by auto
  have n: "status_writes (AlightingConfirmation s d) w p = []"
    by (simp add: status_writes_def)
  from h l f a n show ?thesis by (intro conjI)
qed

theorem status_follows_chain_witness:
  "status (passengers (scenario_A (StationRef 1)) 1) = WAITING \<and>
   status_writes (BoardBus 1 1) (scenario_A (StationRef 1)) 1 = [BOARDING, IN_BUS] \<and>
   follows chain WAITING (status_writes (BoardBus 1 1) (scenario_A (StationRef 1)) 1) \<and>
   status_writes (AlightBus 1 2) (run [BoardBus 1 1] (scenario_A (StationRef 1))) 1
     = [ALIGHTING, WAITING] \<and>
   follows chain IN_BUS
     (status_writes (AlightBus 1 2) (run [BoardBus 1 1] (scenario_A (StationRef 1))) 1) \<and>
   status (passengers ((scenario_A (StationRef 1))\<lparr>passengers :=
          (passengers (scenario_A (StationRef 1)))(1 := set_status ARRIVED
             (passengers (scenario_A (StationRef 1)) 1))\<rparr>) 1) = ARRIVED \<and>
   status_writes (BoardBus 1 1) ((scenario_A (StationRef 1))\<lparr>passengers :=
          (passengers (scenario_A (StationRef 1)))(1 := set_status ARRIVED
             (passengers (scenario_A (StationRef 1)) 1))\<rparr>) 1 = []"
  using status_follows_chain [where c = "BoardBus 1 1" and p = 1
      and w = "scenario_A (StationRef 1)"]
    status_follows_chain [where c = "AlightBus 1 2" and p = 1
      and w = "run [BoardBus 1 1] (scenario_A (StationRef 1))"]
    status_follows_chain [where c = "BoardBus 1 1" and p = 1
      and w = "(scenario_A (StationRef 1))\<lparr>passengers :=
          (passengers (scenario_A (StationRef 1)))(1 := set_status ARRIVED
             (passengers (scenario_A (StationRef 1)) 1))\<rparr>"]
  by (simp add: status_writes_def scenario_A_def empty_world_def new_bus_def
      new_passenger_def new_stop_def stop_add_passenger_def stop_can_accept_passengers_def
      board_bus_def alight_bus_def can_accept_passengers_def
      set_status_def Let_def)

section \<open>Scenario A: claim\<close>

lemma scenario_A_status: "status (passengers (scenario_A d) 1) = WAITING"
  by (simp add: scenario_A_def empty_world_def new_passenger_def stop_add_passenger_def)

text \<open>
  C1, as stated, fails: in scenario A, with destination stop B, one full cycle of the bus
  agent (passenger exchange at A, then the advance to B) leaves the passenger's status
  WAITING, the passenger on A's waiting list and the bus empty; after a second cycle the
  status is still not ARRIVED.
\<close>

theorem scenario_A_bus_cycle_counterexample:
  "status (passengers (bus_cycle 1 (scenario_A (StopRef 2))) 1) \<noteq> IN_BUS \<and>
   current_stop (buses (bus_cycle 1 (scenario_A (StopRef 2))) 1) = Some 2 \<and>
   passenger_list (buses (bus_cycle 1 (scenario_A (StopRef 2))) 1) = [] \<and>
   waiting_passengers (stops (bus_cycle 1 (scenario_A (StopRef 2))) 1) = [1] \<and>
   status (passengers (bus_cycle 1 (bus_cycle 1 (scenario_A (StopRef 2)))) 1) \<noteq> ARRIVED"
proof -
  have a: "status (passengers (bus_cycle 1 (scenario_A (StopRef 2))) 1) = WAITING"
    using scenario_A_status [of "StopRef 2"] by (simp add: bus_cycle_passenger_status)
  have b: "status (passengers (bus_cycle 1 (bus_cycle 1 (scenario_A (StopRef 2)))) 1) = WAITING"
    using scenario_A_status [of "StopRef 2"] by (simp add: bus_cycle_passenger_status)
  have c: "current_stop (buses (bus_cycle 1 (scenario_A (StopRef 2))) 1) = Some 2 \<and>
   passenger_list (buses (bus_cycle 1 (scenario_A (StopRef 2))) 1) = [] \<and>
   waiting_passengers (stops (bus_cycle 1 (scenario_A (StopRef 2))) 1) = [1]"
    by (simp add: scenario_A_def empty_world_def new_bus_def
      new_passenger_def new_stop_def stop_add_passenger_def stop_can_accept_passengers_def
      bus_cycle_def handle_passenger_exchange_def handle_alighting_def
      handle_boarding_def should_passenger_alight_def dest_is_stop_def dest_stop_list_def
      can_accept_passenger_def can_accept_passengers_def is_full_def add_passenger_def
      remove_passenger_def stop_remove_passenger_def move_to_next_stop_def move_target_def
      index_of_def stop_bus_departure_def bus_departure_def stop_bus_arrival_def bus_arrival_def
      Let_def)
  from a b c show ?thesis by simp
qed

lemma enumeration_singleton:
  assumes "set_enumeration it"
  shows "it {x} = [x]"
proof -
  from assms have s: "set (it {x}) = {x}" and d: "distinct (it {x})"
    by (simp_all add: set_enumeration_def)
  show ?thesis
  proof (cases "it {x}")
    case Nil
    with s show ?thesis by simp
  next
    case (Cons a as)
    with s have "a = x" by auto
    moreover from Cons s d have "as = []" by (cases as) auto
    ultimately show ?thesis using Cons by simp
  qed
qed

lemma scenario_A_admitted_fields:
  "buses (scenario_A_admitted d) =
     (\<lambda>b. new_bus 0 None)(1 := \<lparr>capacity = 2, passenger_list = [], current_stop = Some 1,
                                  current_route = Some 1\<rparr>)"
  "stops (scenario_A_admitted d) =
     (\<lambda>s. new_stop)(1 := \<lparr>stop_list = [], s_passenger_list = [1], s_capacity = 50,
                             waiting_passengers = [1], is_occupied = True, bus_queue = [],
                             current_buses = {1}\<rparr>)"
  "stations (scenario_A_admitted d) = (\<lambda>t. [])(1 := [2])"
  "routes (scenario_A_admitted d) = (\<lambda>r. [])(1 := [1, 2])"
  "passengers (scenario_A_admitted d) =
     (\<lambda>p. new_passenger None None)(1 := new_passenger (Some d) (Some 1))"
  by (simp_all add: scenario_A_admitted_def scenario_A_def empty_world_def new_bus_def
      new_passenger_def new_stop_def stop_add_passenger_def stop_can_accept_passengers_def
      stop_bus_arrival_def bus_arrival_def)

text \<open>
  C1, amended. In scenario A with the passenger bound for a station whose only stop is B,
  and the bus admitted at A: the bus agent's cycle alone puts the passenger on the bus's
  passenger list and takes it off A's waiting list, and leaves its status WAITING. With the
  passenger agent's step before it, the status after the bus agent's cycle is IN_BUS, the
  passenger is on the bus's list and off A's waiting list, and the bus is at B; by the
  passenger agent's next step the passenger leaves the bus at B (its current bus is
  cleared, its current stop is B, its status is no longer IN_BUS); and the bus agent's
  next cycle leaves the bus's passenger list empty.
\<close>

theorem scenario_A_with_passenger_agent:
  assumes "set_enumeration it"
  shows "status (passengers (bus_cycle 1 (scenario_A_admitted (StationRef 1))) 1) = WAITING \<and>
         passenger_list (buses (bus_cycle 1 (scenario_A_admitted (StationRef 1))) 1) = [1] \<and>
         waiting_passengers (stops (bus_cycle 1 (scenario_A_admitted (StationRef 1))) 1) = [] \<and>
         status (passengers
           (bus_cycle 1 (passenger_cycle it 1 (scenario_A_admitted (StationRef 1)))) 1) = IN_BUS \<and>
         passenger_list (buses
           (bus_cycle 1 (passenger_cycle it 1 (scenario_A_admitted (StationRef 1)))) 1) = [1] \<and>
         waiting_passengers (stops
           (bus_cycle 1 (passenger_cycle it 1 (scenario_A_admitted (StationRef 1)))) 1) = [] \<and>
         current_stop (buses
           (bus_cycle 1 (passenger_cycle it 1 (scenario_A_admitted (StationRef 1)))) 1) = Some 2 \<and>
         p_current_bus (passengers (passenger_cycle it 1
           (bus_cycle 1 (passenger_cycle it 1 (scenario_A_admitted (StationRef 1))))) 1) = None \<and>
         p_current_stop (passengers (passenger_cycle it 1
           (bus_cycle 1 (passenger_cycle it 1 (scenario_A_admitted (StationRef 1))))) 1) = Some 2 \<and>
         status (passengers (passenger_cycle it 1
           (bus_cycle 1 (passenger_cycle it 1 (scenario_A_admitted (StationRef 1))))) 1) \<noteq> IN_BUS \<and>
         passenger_list (buses (bus_cycle 1 (passenger_cycle it 1
           (bus_cycle 1 (passenger_cycle it 1 (scenario_A_admitted (StationRef 1)))))) 1) = [] \<and>
         waiting_passengers (stops (bus_cycle 1 (passenger_cycle it 1
           (bus_cycle 1 (passenger_cycle it 1 (scenario_A_admitted (StationRef 1)))))) 1) = []"
proof -
  have it1: "it {Suc 0} = [Suc 0]"
    using assms by (rule enumeration_singleton)
  show ?thesis
    by (simp add: scenario_A_admitted_fields it1 new_bus_def new_passenger_def new_stop_def
      passenger_cycle_def try_board_bus_def can_board_bus_def board_bus_def check_arrival_def
      should_alight_at_stop_def alight_bus_def set_status_def
      bus_cycle_def handle_passenger_exchange_def handle_alighting_def
      handle_boarding_def should_passenger_alight_def dest_is_stop_def dest_stop_list_def
      can_accept_passenger_def can_accept_passengers_def is_full_def add_passenger_def
      remove_passenger_def stop_remove_passenger_def move_to_next_stop_def move_target_def
      index_of_def stop_bus_departure_def bus_departure_def stop_bus_arrival_def bus_arrival_def
      Let_def)
qed

theorem scenario_A_with_passenger_agent_witness:
  "set_enumeration (sorted_list_of_set :: nat set \<Rightarrow> nat list) \<and>
   status (passengers (bus_cycle 1 (passenger_cycle sorted_list_of_set 1
      (scenario_A_admitted (StationRef 1)))) 1) = IN_BUS \<and>
   p_current_stop (passengers (passenger_cycle sorted_list_of_set 1
      (bus_cycle 1 (passenger_cycle sorted_list_of_set 1
         (scenario_A_admitted (StationRef 1))))) 1) = Some 2 \<and>
   passenger_list (buses (bus_cycle 1 (passenger_cycle sorted_list_of_set 1
      (bus_cycle 1 (passenger_cycle sorted_list_of_set 1
         (scenario_A_admitted (StationRef 1)))))) 1) = []"
  using scenario_A_with_passenger_agent [of sorted_list_of_set]
  by (simp add: set_enumeration_def)

section \<open>Broker: proofs\<close>

lemma elements_simps [simp]:
  "elements [] = []"
  "elements (None # t) = elements t"
  "elements (Some x # t) = x # elements t"
  by (simp_all add: elements_def)

lemma in_elements: "x \<in> set (elements t) \<longleftrightarrow> Some x \<in> set t"
proof (induction t)
  case Nil
  then show ?case by simp
next
  case (Cons e t)
  then show ?case by (cases e) auto
qed

lemma elements_new_set [simp]: "elements new_set = []"
  by (simp add: new_set_def elements_def)

lemma elements_set_remove: "elements (set_remove x t) = removeAll x (elements t)"
proof (induction t)
  case Nil
  then show ?case by (simp add: set_remove_def)
next
  case (Cons e t)
  then show ?case by (cases e) (auto simp: set_remove_def)
qed

lemma distinct_set_add:
  assumes "placement place" and "distinct (elements t)"
  shows "distinct (elements (set_add place x t))"
  using assms by (auto simp: set_add_def placement_def)

lemma distinct_set_remove: "distinct (elements t) \<Longrightarrow> distinct (elements (set_remove x t))"
  by (simp add: elements_set_remove distinct_removeAll)

lemma first_entry_None: "first_entry t = None \<Longrightarrow> elements t = []"
proof (induction t)
  case Nil
  then show ?case by simp
next
  case (Cons e t)
  then show ?case by (cases e) auto
qed

lemma first_entry_Some:
  "first_entry t = Some (j, x) \<Longrightarrow> elements t = x # elements (drop (Suc j) t)"
proof (induction t arbitrary: j)
  case Nil
  then show ?case by simp
next
  case (Cons e t)
  show ?case
  proof (cases e)
    case None
    with Cons.prems obtain i where "first_entry t = Some (i, x)" and "j = Suc i"
      by (auto split: prod.splits)
    with Cons.IH None show ?thesis by simp
  next
    case (Some y)
    with Cons.prems show ?thesis by simp
  qed
qed

lemma next_entry_None: "next_entry pos t = None \<Longrightarrow> elements (drop pos t) = []"
  by (simp add: next_entry_def first_entry_None)

lemma next_entry_Some:
  assumes "next_entry pos t = Some (j, x)"
  shows "elements (drop pos t) = x # elements (drop (Suc j) t)"
proof -
  from assms obtain i where f: "first_entry (drop pos t) = Some (i, x)" and j: "j = pos + i"
    by (auto simp: next_entry_def split: prod.splits)
  from first_entry_Some [OF f] j show ?thesis by (simp add: add.commute)
qed

text \<open>The subscriber sets of a running broker hold no subscriber twice.\<close>

lemma subscribe_fold_distinct:
  assumes "placement place" and "\<And>t. distinct (elements (m t))"
  shows "distinct (elements (fold (\<lambda>t m. m(t := set_add place sub (m t))) ts m t'))"
  using assms(2)
proof (induction ts arbitrary: m)
  case Nil
  then show ?case by simp
next
  case (Cons a ts)
  have "distinct (elements ((m(a := set_add place sub (m a))) t))" for t
    using Cons.prems by (simp add: distinct_set_add [OF assms(1)])
  from Cons.IH [OF this] show ?case by simp
qed

lemma unsubscribe_fold_distinct:
  assumes "\<And>t. distinct (elements (m t))"
  shows "distinct (elements
     (fold (\<lambda>t m. if Some sub \<in> set (m t) then m(t := set_remove sub (m t)) else m) ts m t'))"
  using assms
proof (induction ts arbitrary: m)
  case Nil
  then show ?case by simp
next
  case (Cons a ts)
  have "distinct (elements ((if Some sub \<in> set (m a) then m(a := set_remove sub (m a)) else m) t))"
    for t
    using Cons.prems by (simp add: distinct_set_remove)
  from Cons.IH [OF this] show ?case by simp
qed

lemma distinct_subscribers_step:
  assumes "placement place" and "\<And>t. distinct (elements (subscribers (the_broker r) t))"
  shows "distinct (elements (subscribers (the_broker (broker_step place c r)) t))"
proof (cases c)
  case (Subscribe sub ts)
  with assms show ?thesis by (simp add: subscribe_def subscribe_fold_distinct)
next
  case (Unsubscribe sub ts)
  with assms(2) show ?thesis by (simp add: unsubscribe_def unsubscribe_fold_distinct)
next
  case (Publish m)
  with assms(2) show ?thesis by (simp add: publish_def)
next
  case ConsumerGet
  with assms(2) show ?thesis
    by (simp add: consumer_get_def split: consumer.splits list.splits)
next
  case ConsumerNext
  with assms(2) show ?thesis
    by (simp add: consumer_next_def split: consumer.splits option.splits prod.splits)
next
  case Shutdown
  with assms(2) show ?thesis by (simp add: shutdown_def)
qed

lemma distinct_subscribers_run:
  assumes "placement place" and "\<And>t. distinct (elements (subscribers (the_broker r) t))"
  shows "distinct (elements (subscribers (the_broker (broker_run place cs r)) t))"
  using assms(2)
proof (induction cs arbitrary: r)
  case Nil
  then show ?case by simp
next
  case (Cons c cs)
  have "distinct (elements (subscribers (the_broker (broker_step place c r)) t))" for t
    using assms(1) Cons.prems by (rule distinct_subscribers_step)
  from Cons.IH [OF this] show ?case by simp
qed

lemma distinct_subscribers_reachable:
  assumes "placement place"
  shows "distinct (elements (subscribers (the_broker (broker_run place cs new_run)) t))"
  using assms by (rule distinct_subscribers_run) (simp add: new_run_def new_broker_def)

text \<open>The \<open>for\<close> loop, while nothing but publishing goes on beside it.\<close>

lemma idle_run:
  assumes "consumer r = Idle" and "\<forall>c \<in> set ds. c = ConsumerNext \<or> is_publish c"
  shows "delivered (broker_run place ds r) = delivered r \<and>
         dequeued (broker_run place ds r) = dequeued r \<and>
         consumer (broker_run place ds r) = Idle"
  using assms
proof (induction ds arbitrary: r)
  case Nil
  then show ?case by simp
next
  case (Cons c ds)
  from Cons.prems(2) have c: "c = ConsumerNext \<or> is_publish c"
    and rest: "\<forall>c \<in> set ds. c = ConsumerNext \<or> is_publish c" by simp_all
  have st: "consumer (broker_step place c r) = Idle \<and>
      delivered (broker_step place c r) = delivered r \<and>
      dequeued (broker_step place c r) = dequeued r"
    using c Cons.prems(1) by (cases c) (simp_all add: consumer_next_def)
  with Cons.IH [of "broker_step place c r"] rest show ?case by simp
qed

lemma delivering_run:
  assumes "consumer r = Delivering m pos used"
      and "subscribers (the_broker r) (msg_type m) = t" and "used = length (elements t)"
      and "\<forall>c \<in> set ds. c = ConsumerNext \<or> is_publish c"
      and "length (elements (drop pos t)) < count_list ds ConsumerNext"
  shows "delivered (broker_run place ds r) =
           delivered r @ map (\<lambda>sub. (sub, m)) (elements (drop pos t)) \<and>
         dequeued (broker_run place ds r) = dequeued r \<and>
         consumer (broker_run place ds r) = Idle"
  using assms(1,2,4,5)
proof (induction ds arbitrary: r pos)
  case Nil
  then show ?case by simp
next
  case (Cons c ds)
  from Cons.prems(3) have c: "c = ConsumerNext \<or> is_publish c"
    and rest: "\<forall>c \<in> set ds. c = ConsumerNext \<or> is_publish c" by simp_all
  show ?case
  proof (cases "c = ConsumerNext")
    case False
    with c obtain m' where p: "c = Publish m'" by (cases c) simp_all
    have "consumer (broker_step place c r) = Delivering m pos used"
      and "subscribers (the_broker (broker_step place c r)) (msg_type m) = t"
      and "delivered (broker_step place c r) = delivered r"
      and "dequeued (broker_step place c r) = dequeued r"
      using Cons.prems(1,2) by (simp_all add: p publish_def)
    moreover have "length (elements (drop pos t)) < count_list ds ConsumerNext"
      using Cons.prems(4) by (simp add: p)
    ultimately show ?thesis
      using Cons.IH [of "broker_step place c r" pos] rest by simp
  next
    case True
    show ?thesis
    proof (cases "next_entry pos t")
      case None
      then have e: "elements (drop pos t) = []" by (rule next_entry_None)
      have "consumer (broker_step place c r) = Idle"
        and "delivered (broker_step place c r) = delivered r"
        and "dequeued (broker_step place c r) = dequeued r"
        using True Cons.prems(1,2) assms(3) None by (simp_all add: consumer_next_def)
      with idle_run [of "broker_step place c r" ds place] rest e show ?thesis by simp
    next
      case (Some a)
      obtain j sub where a: "a = (j, sub)" by (cases a)
      from Some a have e: "elements (drop pos t) = sub # elements (drop (Suc j) t)"
        by (simp add: next_entry_Some)
      have "consumer (broker_step place c r) = Delivering m (Suc j) used"
        and "subscribers (the_broker (broker_step place c r)) (msg_type m) = t"
        and d: "delivered (broker_step place c r) = delivered r @ [(sub, m)]"
        and q: "dequeued (broker_step place c r) = dequeued r"
        using True Cons.prems(1,2) assms(3) Some a by (simp_all add: consumer_next_def)
      moreover have "length (elements (drop (Suc j) t)) < count_list ds ConsumerNext"
        using Cons.prems(4) True e by simp
      ultimately show ?thesis
        using Cons.IH [of "broker_step place c r" "Suc j"] rest e by simp
    qed
  qed
qed

lemma placement_hash_slot_place:
  fixes hash :: "'s \<Rightarrow> nat"
  shows "placement (hash_slot_place hash)"
proof -
  have upd: "elements (t[i := Some x]) = elements (take i t) @ x # elements (drop (Suc i) t)"
    and old: "elements t = elements (take i t) @ elements (drop (Suc i) t)"
    if "i < length t" and "t ! i = None" for t :: "'s py_set" and i x
  proof -
    from that have t: "t = take i t @ None # drop (Suc i) t"
      by (metis id_take_nth_drop)
    have app: "elements (xs @ ys) = elements xs @ elements ys" for xs ys :: "'s py_set"
      by (simp add: elements_def)
    from that(1) have "t[i := Some x] = take i t @ Some x # drop (Suc i) t"
      by (rule upd_conv_take_nth_drop)
    then show "elements (t[i := Some x]) = elements (take i t) @ x # elements (drop (Suc i) t)"
      by (simp add: app)
    have "elements t = elements (take i t @ None # drop (Suc i) t)" using t by simp
    then show "elements t = elements (take i t) @ elements (drop (Suc i) t)"
      by (simp add: app)
  qed
  have app: "elements (xs @ ys) = elements xs @ elements ys" for xs ys :: "'s py_set"
    by (simp add: elements_def)
  show ?thesis
    unfolding placement_def
  proof (intro allI impI)
    fix x :: 's and t :: "'s py_set"
    assume a: "Some x \<notin> set t \<and> distinct (elements t)"
    then have nx: "x \<notin> set (elements t)" by (simp add: in_elements)
    show "distinct (elements (hash_slot_place hash x t)) \<and>
          set (elements (hash_slot_place hash x t)) = insert x (set (elements t))"
    proof (cases "hash x mod 8 < length t \<and> t ! (hash x mod 8) = None")
      case True
      with upd [of "hash x mod 8" t x] old [of "hash x mod 8" t] a nx show ?thesis
        by (auto simp: hash_slot_place_def Let_def)
    next
      case False
      with a nx show ?thesis by (auto simp: hash_slot_place_def Let_def app)
    qed
  qed
qed

section \<open>Broker delivery: claim\<close>

text \<open>
  C4, as stated, fails. Subscriber 2 subscribes to bus arrivals, then subscriber 1; their
  hashes are 2 and 1, so the set holds 1 in slot 1 and 2 in slot 2 of its table. A
  bus-arrival message is published and the consumer loop takes it: \<open>on_message\<close> is called
  on subscriber 1 first and on subscriber 2 second, the reverse of the order of
  subscription.
\<close>

theorem delivery_order_counterexample:
  "delivered (broker_run (hash_slot_place (\<lambda>sub. sub))
      [Subscribe 2 [BUS_ARRIVAL], Subscribe 1 [BUS_ARRIVAL], Publish arrival_message,
       ConsumerGet, ConsumerNext, ConsumerNext, ConsumerNext] new_run)
     = [(1 :: nat, arrival_message), (2, arrival_message)]"
  by code_simp

text \<open>
  C4, amended. Whenever the consumer loop of a running broker takes a message from the
  queue, and only publishing goes on while it serves the message, it calls \<open>on_message\<close>
  with that message exactly once for every subscriber registered for the message's type
  and for nobody else, in the order of the slots the subscribers occupy in the set's table
  (fixed by their hashes and by what the set has held, not by the order of subscription).
  If the size of the set has changed when the loop asks for the next subscriber, no further
  call is made for this message and the consumer goes back to the head of its loop.
\<close>

theorem delivery_to_every_subscriber:
  assumes "placement place" and "r = broker_run place cs new_run"
      and "consumer r = Idle" and "\<not> stop_event (the_broker r)"
      and "message_queue (the_broker r) = m # rest"
      and "t = subscribers (the_broker r) (msg_type m)"
      and "\<forall>c \<in> set ds. c = ConsumerNext \<or> is_publish c"
      and "length (elements t) < count_list ds ConsumerNext"
  shows "dequeued (broker_run place (ConsumerGet # ds) r) = dequeued r @ [m] \<and>
         delivered (broker_run place (ConsumerGet # ds) r) =
           delivered r @ map (\<lambda>sub. (sub, m)) (elements t) \<and>
         consumer (broker_run place (ConsumerGet # ds) r) = Idle \<and>
         distinct (elements t) \<and>
         (sub \<in> set (elements t) \<longleftrightarrow> Some sub \<in> set t) \<and>
         (consumer r' = Delivering m' pos used \<and>
          length (elements (subscribers (the_broker r') (msg_type m'))) \<noteq> used \<longrightarrow>
            delivered (broker_step place ConsumerNext r') = delivered r' \<and>
            consumer (broker_step place ConsumerNext r') = Idle)"
proof -
  let ?r1 = "broker_step place ConsumerGet r"
  have c1: "consumer ?r1 = Delivering m 0 (length (elements t))"
    and s1: "subscribers (the_broker ?r1) (msg_type m) = t"
    and d1: "delivered ?r1 = delivered r" and q1: "dequeued ?r1 = dequeued r @ [m]"
    using assms(3-6) by (simp_all add: consumer_get_def)
  from delivering_run [OF c1 s1 refl assms(7), of place] assms(8)
  have run: "delivered (broker_run place ds ?r1) =
        delivered ?r1 @ map (\<lambda>sub. (sub, m)) (elements t) \<and>
      dequeued (broker_run place ds ?r1) = dequeued ?r1 \<and>
      consumer (broker_run place ds ?r1) = Idle"
    by simp
  have dist: "distinct (elements t)"
    unfolding assms(6) assms(2) using assms(1) by (rule distinct_subscribers_reachable)
  have err: "consumer r' = Delivering m' pos used \<and>
          length (elements (subscribers (the_broker r') (msg_type m'))) \<noteq> used \<longrightarrow>
            delivered (broker_step place ConsumerNext r') = delivered r' \<and>
            consumer (broker_step place ConsumerNext r') = Idle"
    by (simp add: consumer_next_def)
  from run d1 q1 dist err show ?thesis by (simp add: in_elements)
qed


theorem delivery_to_every_subscriber_witness:
  "placement by_hash \<and>
   consumer example_run = Idle \<and> \<not> stop_event (the_broker example_run) \<and>
   message_queue (the_broker example_run) = [arrival_message] \<and>
   list_all (\<lambda>c. c = ConsumerNext \<or> is_publish c)
     [ConsumerNext, ConsumerNext, ConsumerNext :: (nat, unit) broker_call] \<and>
   length (elements (subscribers (the_broker example_run) BUS_ARRIVAL))
     < count_list [ConsumerNext, ConsumerNext, ConsumerNext :: (nat, unit) broker_call] ConsumerNext \<and>
   consumer example_changed_run = Delivering arrival_message 0 1 \<and>
   length (elements (subscribers (the_broker example_changed_run) BUS_ARRIVAL)) \<noteq> 1 \<and>
   elements (subscribers (the_broker example_run) BUS_ARRIVAL) = [1, 2] \<and>
   delivered (broker_run by_hash [ConsumerGet, ConsumerNext, ConsumerNext, ConsumerNext] example_run)
     = [(1, arrival_message), (2, arrival_message)] \<and>
   delivered (broker_step by_hash ConsumerNext example_changed_run) = [] \<and>
   consumer (broker_step by_hash ConsumerNext example_changed_run) = Idle"
proof -
  have p: "placement by_hash"
    unfolding by_hash_def by (rule placement_hash_slot_place)
  have h3: "consumer example_run = Idle" by code_simp
  have h4: "\<not> stop_event (the_broker example_run)" by code_simp
  have h5: "message_queue (the_broker example_run) = [arrival_message]" by code_simp
  have h6: "subscribers (the_broker example_run) BUS_ARRIVAL =
      subscribers (the_broker example_run) (msg_type arrival_message)"
    by (simp add: arrival_message_def)
  have h7: "\<forall>c \<in> set [ConsumerNext, ConsumerNext, ConsumerNext :: (nat, unit) broker_call].
       c = ConsumerNext \<or> is_publish c" by simp
  have el: "elements (subscribers (the_broker example_run) BUS_ARRIVAL) = [1, 2]" by code_simp
  have h8: "length (elements (subscribers (the_broker example_run) BUS_ARRIVAL))
     < count_list [ConsumerNext, ConsumerNext, ConsumerNext :: (nat, unit) broker_call] ConsumerNext"
    by (simp add: el)
  have e1: "consumer example_changed_run = Delivering arrival_message 0 1" by code_simp
  have e2: "length (elements (subscribers (the_broker example_changed_run) BUS_ARRIVAL)) \<noteq> 1"
    by code_simp
  have e2': "length (elements (subscribers (the_broker example_changed_run)
      (msg_type arrival_message))) \<noteq> 1"
    using e2 by (simp add: arrival_message_def)
  have d0: "delivered example_run = []" by code_simp
  have d1: "delivered example_changed_run = []" by code_simp
  from delivery_to_every_subscriber [OF p example_run_def h3 h4 h5 h6 h7 h8,
      where r' = example_changed_run and m' = arrival_message and pos = 0 and used = 1]
    e1 e2' d0 d1 el
  have "delivered (broker_run by_hash [ConsumerGet, ConsumerNext, ConsumerNext, ConsumerNext]
      example_run) = [(1, arrival_message), (2, arrival_message)]"
    and "delivered (broker_step by_hash ConsumerNext example_changed_run) = []"
    and "consumer (broker_step by_hash ConsumerNext example_changed_run) = Idle"
    by simp_all
  moreover have "list_all (\<lambda>c. c = ConsumerNext \<or> is_publish c)
     [ConsumerNext, ConsumerNext, ConsumerNext :: (nat, unit) broker_call]" by simp
  ultimately show ?thesis using p h3 h4 h5 h8 e1 e2 el by (intro conjI)
qed

section \<open>Broker order: proofs\<close>

lemma precedes_in_set: "precedes a b xs \<Longrightarrow> b \<in> set xs"
  by (induction xs) (auto split: if_splits)

lemma subseq_set_subset: "subseq xs ys \<Longrightarrow> set xs \<subseteq> set ys"
  by (auto elim: list_emb_set)

lemma precedes_subseq:
  assumes "subseq ys xs" and "distinct xs" and "precedes a b xs"
      and "a \<in> set ys" and "b \<in> set ys"
  shows "precedes a b ys"
  using assms
proof (induction rule: list_emb.induct)
  case (list_emb_Nil ys)
  then show ?case by simp
next
  case (list_emb_Cons xs ys y)
  from list_emb_Cons.hyps have sub: "set xs \<subseteq> set ys" by (rule subseq_set_subset)
  show ?case
  proof (cases "y = a")
    case True
    with list_emb_Cons.prems sub have False by auto
    then show ?thesis ..
  next
    case False
    with list_emb_Cons show ?thesis by simp
  qed
next
  case (list_emb_Cons2 x y xs ys)
  then have xy: "x = y" by simp
  from list_emb_Cons2.prems have nin: "y \<notin> set ys" and dist: "distinct ys" by simp_all
  show ?case
  proof (cases "y = a")
    case True
    with list_emb_Cons2.prems have "b \<in> set ys" by simp
    with nin have "b \<noteq> y" by auto
    with list_emb_Cons2.prems xy have "b \<in> set xs" by simp
    with True xy show ?thesis by simp
  next
    case False
    with list_emb_Cons2.prems have p: "precedes a b ys" by simp
    then have "b \<in> set ys" by (rule precedes_in_set)
    with nin have "b \<noteq> y" by auto
    with list_emb_Cons2.prems xy False have "a \<in> set xs" "b \<in> set xs" by simp_all
    with list_emb_Cons2.IH dist p have "precedes a b xs" by simp
    with False xy show ?thesis by simp
  qed
qed

lemma precedes_remdups_adj: "precedes a b (remdups_adj xs) \<Longrightarrow> precedes a b xs"
proof (induction xs rule: remdups_adj.induct)
  case 1
  then show ?case by simp
next
  case (2 x)
  then show ?case by simp
next
  case (3 x y xs)
  show ?case
  proof (cases "x = y")
    case True
    with "3.prems" have "precedes a b (remdups_adj (x # xs))" by simp
    with "3.IH"(1) True have "precedes a b (x # xs)" by simp
    with True show ?thesis by (simp split: if_splits)
  next
    case False
    show ?thesis
    proof (cases "x = a")
      case True
      with False "3.prems" show ?thesis by simp
    next
      case na: False
      with False "3.prems" have "precedes a b (remdups_adj (y # xs))" by simp
      with "3.IH"(2) False have "precedes a b (y # xs)" by simp
      with na show ?thesis by simp
    qed
  qed
qed

lemma remdups_adj_snoc:
  "remdups_adj (xs @ [m]) =
     (if xs \<noteq> [] \<and> last xs = m then remdups_adj xs else remdups_adj xs @ [m])"
  by (induction xs rule: remdups_adj.induct) auto

text \<open>The messages published are those taken from the queue, then those still queued.\<close>

lemma fifo_step:
  assumes "published r = taken @ message_queue (the_broker r)"
      and "subseq (dequeued r) taken"
  shows "\<exists>taken'. published (broker_step place c r) =
            taken' @ message_queue (the_broker (broker_step place c r)) \<and>
          subseq (dequeued (broker_step place c r)) taken'"
proof (cases c)
  case (Subscribe sub ts)
  with assms show ?thesis by (auto simp: subscribe_def)
next
  case (Unsubscribe sub ts)
  with assms show ?thesis by (auto simp: unsubscribe_def)
next
  case (Publish m)
  with assms show ?thesis by (auto simp: publish_def)
next
  case Shutdown
  from assms(2) have "subseq (dequeued r) (taken @ message_queue (the_broker r))"
    by (rule subseq_rev_drop_many)
  with assms(1) Shutdown show ?thesis by (auto simp: shutdown_def)
next
  case ConsumerNext
  with assms show ?thesis
    by (auto simp: consumer_next_def split: consumer.splits option.splits)
next
  case ConsumerGet
  show ?thesis
  proof (cases "consumer r = Idle \<and> \<not> stop_event (the_broker r) \<and>
      message_queue (the_broker r) \<noteq> []")
    case False
    with assms ConsumerGet show ?thesis
      by (auto simp: consumer_get_def split: consumer.splits list.splits)
  next
    case True
    then obtain m rest where q: "message_queue (the_broker r) = m # rest"
      by (cases "message_queue (the_broker r)") auto
    have "subseq (dequeued r @ [m]) (taken @ [m])"
      using assms(2) by simp
    with True q assms(1) ConsumerGet show ?thesis
      by (auto simp: consumer_get_def intro!: exI [of _ "taken @ [m]"])
  qed
qed

lemma fifo_run:
  assumes "published r = taken @ message_queue (the_broker r)"
      and "subseq (dequeued r) taken"
  shows "\<exists>taken'. published (broker_run place cs r) =
            taken' @ message_queue (the_broker (broker_run place cs r)) \<and>
          subseq (dequeued (broker_run place cs r)) taken'"
  using assms
proof (induction cs arbitrary: r taken)
  case Nil
  then show ?case by auto
next
  case (Cons c cs)
  from fifo_step [OF Cons.prems, of place c] obtain t where
    "published (broker_step place c r) = t @ message_queue (the_broker (broker_step place c r))"
    "subseq (dequeued (broker_step place c r)) t" by blast
  then show ?case using Cons.IH by simp
qed

lemma dequeued_subseq_published:
  fixes place :: "'s \<Rightarrow> 's py_set \<Rightarrow> 's py_set" and cs :: "('s, 'd) broker_call list"
  shows "subseq (dequeued (broker_run place cs new_run)) (published (broker_run place cs new_run))"
proof -
  have "published (new_run :: ('s, 'd) run_state) = [] @ message_queue (the_broker new_run)"
    and "subseq (dequeued (new_run :: ('s, 'd) run_state)) []"
    by (simp_all add: new_run_def new_broker_def)
  from fifo_run [OF this, of place cs] obtain t where
    p: "published (broker_run place cs new_run) =
        t @ message_queue (the_broker (broker_run place cs new_run))"
    and s: "subseq (dequeued (broker_run place cs new_run)) t" by blast
  from s have "subseq (dequeued (broker_run place cs new_run))
      (t @ message_queue (the_broker (broker_run place cs new_run)))"
    by (rule subseq_rev_drop_many)
  with p show ?thesis by simp
qed

lemma exact_fifo_step:
  assumes "published r = dequeued r @ message_queue (the_broker r)" and "c \<noteq> Shutdown"
  shows "published (broker_step place c r) =
           dequeued (broker_step place c r) @ message_queue (the_broker (broker_step place c r))"
proof (cases c)
  case (Subscribe sub ts)
  with assms show ?thesis by (simp add: subscribe_def)
next
  case (Unsubscribe sub ts)
  with assms show ?thesis by (simp add: unsubscribe_def)
next
  case (Publish m)
  with assms show ?thesis by (simp add: publish_def)
next
  case Shutdown
  with assms show ?thesis by simp
next
  case ConsumerGet
  with assms show ?thesis
    by (simp add: consumer_get_def split: consumer.splits list.splits)
next
  case ConsumerNext
  with assms show ?thesis
    by (simp add: consumer_next_def split: consumer.splits option.splits prod.splits)
qed

lemma exact_fifo_run:
  assumes "published r = dequeued r @ message_queue (the_broker r)" and "Shutdown \<notin> set cs"
  shows "published (broker_run place cs r) =
           dequeued (broker_run place cs r) @ message_queue (the_broker (broker_run place cs r))"
  using assms
proof (induction cs arbitrary: r)
  case Nil
  then show ?case by simp
next
  case (Cons c cs)
  from Cons.prems have "c \<noteq> Shutdown" and rest: "Shutdown \<notin> set cs" by auto
  with Cons.prems(1) have "published (broker_step place c r) =
      dequeued (broker_step place c r) @ message_queue (the_broker (broker_step place c r))"
    by (intro exact_fifo_step)
  from Cons.IH [OF this rest] show ?case by simp
qed

lemma observed_inv_cong:
  assumes "consumer r' = consumer r" and "dequeued r' = dequeued r"
      and "delivered r' = delivered r"
  shows "observed_inv sub r' = observed_inv sub r"
proof -
  have "observed sub r' = observed sub r"
    using assms(3) by (simp add: observed_def)
  with assms(1,2) show ?thesis
    by (simp add: observed_inv_def cong: consumer.case_cong)
qed

lemma observed_inv_step:
  assumes "observed_inv sub r"
  shows "observed_inv sub (broker_step place c r)"
proof (cases c)
  case (Subscribe s ts)
  have "observed_inv sub (broker_step place c r) = observed_inv sub r"
    by (rule observed_inv_cong) (simp_all add: Subscribe)
  with assms show ?thesis by simp
next
  case (Unsubscribe s ts)
  have "observed_inv sub (broker_step place c r) = observed_inv sub r"
    by (rule observed_inv_cong) (simp_all add: Unsubscribe)
  with assms show ?thesis by simp
next
  case (Publish m)
  have "observed_inv sub (broker_step place c r) = observed_inv sub r"
    by (rule observed_inv_cong) (simp_all add: Publish)
  with assms show ?thesis by simp
next
  case Shutdown
  have "observed_inv sub (broker_step place c r) = observed_inv sub r"
    by (rule observed_inv_cong) (simp_all add: Shutdown)
  with assms show ?thesis by simp
next
  case ConsumerGet
  show ?thesis
  proof (cases "consumer r = Idle \<and> \<not> stop_event (the_broker r) \<and>
      message_queue (the_broker r) \<noteq> []")
    case False
    then have "broker_step place c r = r"
      using ConsumerGet by (auto simp: consumer_get_def split: consumer.splits list.splits)
    with assms show ?thesis by simp
  next
    case True
    then obtain m rest where q: "message_queue (the_broker r) = m # rest"
      by (cases "message_queue (the_broker r)") auto
    from assms have s: "subseq (remdups_adj (observed sub r)) (dequeued r)"
      by (simp add: observed_inv_def)
    then have "subseq (remdups_adj (observed sub r)) (dequeued r @ [m])"
      by (rule subseq_rev_drop_many)
    with s True q ConsumerGet show ?thesis
      by (simp add: observed_inv_def observed_def consumer_get_def)
  qed
next
  case ConsumerNext
  show ?thesis
  proof (cases "consumer r")
    case Idle
    with assms ConsumerNext show ?thesis by (simp add: consumer_next_def)
  next
    case (Delivering m pos used)
    from assms Delivering have s: "subseq (remdups_adj (observed sub r)) (dequeued r)"
      and ne: "dequeued r \<noteq> []" and la: "last (dequeued r) = m"
      and alt: "subseq (remdups_adj (observed sub r)) (butlast (dequeued r)) \<or>
           (observed sub r \<noteq> [] \<and> last (observed sub r) = m)"
      by (simp_all add: observed_inv_def)
    let ?t = "subscribers (the_broker r) (msg_type m)"
    show ?thesis
    proof (cases "length (elements ?t) \<noteq> used \<or> next_entry pos ?t = None")
      case True
      then have "broker_step place c r = r\<lparr>consumer := Idle\<rparr>"
        using ConsumerNext Delivering by (auto simp: consumer_next_def)
      with s show ?thesis by (simp add: observed_inv_def observed_def)
    next
      case False
      then obtain j x where nx: "next_entry pos ?t = Some (j, x)" and u: "length (elements ?t) = used"
        by auto
      have st: "broker_step place c r =
          r\<lparr>delivered := delivered r @ [(x, m)], consumer := Delivering m (Suc j) used\<rparr>"
        using ConsumerNext Delivering nx u by (simp add: consumer_next_def)
      show ?thesis
      proof (cases "x = sub")
        case False
        then have "observed sub (broker_step place c r) = observed sub r"
          by (simp add: st observed_def)
        with s ne la alt show ?thesis by (simp add: observed_inv_def st)
      next
        case True
        then have ob: "observed sub (broker_step place c r) = observed sub r @ [m]"
          by (simp add: st observed_def)
        have dq: "dequeued r = butlast (dequeued r) @ [m]"
          using ne la by (metis append_butlast_last_id)
        have "subseq (remdups_adj (observed sub r @ [m])) (dequeued r)"
        proof (cases "observed sub r \<noteq> [] \<and> last (observed sub r) = m")
          case True
          with s show ?thesis by (simp add: remdups_adj_snoc)
        next
          case False
          with alt have "subseq (remdups_adj (observed sub r)) (butlast (dequeued r))" by blast
          then have "subseq (remdups_adj (observed sub r) @ [m]) (butlast (dequeued r) @ [m])"
            by simp
          then have "subseq (remdups_adj (observed sub r) @ [m]) (dequeued r)"
            using dq by simp
          moreover have "remdups_adj (observed sub r @ [m]) = remdups_adj (observed sub r) @ [m]"
            using False by (simp only: remdups_adj_snoc if_False)
          ultimately show ?thesis by simp
        qed
        with ne la show ?thesis by (simp add: observed_inv_def st ob observed_def True)
      qed
    qed
  qed
qed

lemma observed_inv_run:
  "observed_inv sub r \<Longrightarrow> observed_inv sub (broker_run place cs r)"
  by (induction cs arbitrary: r) (simp_all add: observed_inv_step)

lemma observed_inv_new_run: "observed_inv sub new_run"
  by (simp add: observed_inv_def observed_def new_run_def)

section \<open>Broker order: claim\<close>

text \<open>
  C5. In every run of the broker from its construction, the messages the consumer loop
  takes from the queue are in the order of the \<open>publish\<close> calls, whoever made them: they
  are a subsequence of the published messages, and as long as \<open>shutdown\<close> has not been
  called they are exactly the published messages that are no longer queued, in order. What
  a subscriber is handed follows the order in which the messages were taken, so if \<open>m1\<close>
  is published before \<open>m2\<close> (the published messages being distinct) and a subscriber is
  handed both, it is handed \<open>m1\<close> before \<open>m2\<close>.
\<close>

theorem broker_fifo:
  fixes place :: "'s \<Rightarrow> 's py_set \<Rightarrow> 's py_set" and cs :: "('s, 'd) broker_call list"
  assumes "r = broker_run place cs new_run"
  shows "subseq (dequeued r) (published r) \<and>
         (Shutdown \<notin> set cs \<longrightarrow> published r = dequeued r @ message_queue (the_broker r)) \<and>
         subseq (remdups_adj (observed sub r)) (dequeued r) \<and>
         subseq (remdups_adj (observed sub r)) (published r) \<and>
         (distinct (published r) \<and> precedes m1 m2 (published r) \<and>
          m1 \<in> set (observed sub r) \<and> m2 \<in> set (observed sub r) \<longrightarrow>
            precedes m1 m2 (observed sub r))"
proof -
  have dp: "subseq (dequeued r) (published r)"
    unfolding assms by (rule dequeued_subseq_published)
  have init: "published (new_run :: ('s, 'd) run_state) =
      dequeued new_run @ message_queue (the_broker new_run)"
    by (simp add: new_run_def new_broker_def)
  have ex: "Shutdown \<notin> set cs \<longrightarrow> published r = dequeued r @ message_queue (the_broker r)"
    unfolding assms using exact_fifo_run [OF init] by blast
  have "observed_inv sub r"
    unfolding assms by (rule observed_inv_run [OF observed_inv_new_run])
  then have od: "subseq (remdups_adj (observed sub r)) (dequeued r)"
    by (simp add: observed_inv_def)
  from od dp have op: "subseq (remdups_adj (observed sub r)) (published r)"
    by (rule subseq_order.trans)
  have pr: "distinct (published r) \<and> precedes m1 m2 (published r) \<and>
          m1 \<in> set (observed sub r) \<and> m2 \<in> set (observed sub r) \<longrightarrow>
            precedes m1 m2 (observed sub r)"
  proof (intro impI)
    assume a: "distinct (published r) \<and> precedes m1 m2 (published r) \<and>
          m1 \<in> set (observed sub r) \<and> m2 \<in> set (observed sub r)"
    then have "m1 \<in> set (remdups_adj (observed sub r))" "m2 \<in> set (remdups_adj (observed sub r))"
      by simp_all
    with precedes_subseq [OF op] a have "precedes m1 m2 (remdups_adj (observed sub r))"
      by blast
    then show "precedes m1 m2 (observed sub r)" by (rule precedes_remdups_adj)
  qed
  from dp ex od op pr show ?thesis by (intro conjI)
qed


theorem broker_fifo_witness:
  "Shutdown \<notin> set example_fifo_calls \<and>
   published (broker_run by_hash example_fifo_calls new_run)
     = [arrival_message, second_arrival_message] \<and>
   distinct (published (broker_run by_hash example_fifo_calls new_run)) \<and>
   precedes arrival_message second_arrival_message
     (published (broker_run by_hash example_fifo_calls new_run)) \<and>
   dequeued (broker_run by_hash example_fifo_calls new_run)
     = [arrival_message, second_arrival_message] \<and>
   observed 1 (broker_run by_hash example_fifo_calls new_run)
     = [arrival_message, second_arrival_message] \<and>
   precedes arrival_message second_arrival_message
     (observed 1 (broker_run by_hash example_fifo_calls new_run))"
proof -
  have a: "Shutdown \<notin> set example_fifo_calls" by code_simp
  have b: "published (broker_run by_hash example_fifo_calls new_run)
     = [arrival_message, second_arrival_message]" by code_simp
  have c: "distinct (published (broker_run by_hash example_fifo_calls new_run))" by code_simp
  have d: "precedes arrival_message second_arrival_message
     (published (broker_run by_hash example_fifo_calls new_run))" by code_simp
  have e: "dequeued (broker_run by_hash example_fifo_calls new_run)
     = [arrival_message, second_arrival_message]" by code_simp
  have f: "observed 1 (broker_run by_hash example_fifo_calls new_run)
     = [arrival_message, second_arrival_message]" by code_simp
  have g: "arrival_message \<in> set (observed 1 (broker_run by_hash example_fifo_calls new_run))"
    "second_arrival_message \<in> set (observed 1 (broker_run by_hash example_fifo_calls new_run))"
    unfolding f by simp_all
  from broker_fifo [OF refl, of by_hash example_fifo_calls 1 arrival_message
      second_arrival_message] c d g
  have h: "precedes arrival_message second_arrival_message
     (observed 1 (broker_run by_hash example_fifo_calls new_run))"
    by blast
  from a b c d e f h show ?thesis by (intro conjI)
qed

end
